theory Spec2Isabelle
  imports Complex_Main "HOL-Library.AList"
begin

section \<open>JSON values and protocol events\<close>

text \<open>
  The room state engine of \<^verbatim>\<open>src/matrix/Room.cpp\<close> reads event contents through Qt's JSON
  accessors. A \<^verbatim>\<open>QJsonObject\<close> is modelled as an association list read with \<open>map_of\<close>;
  a missing key reads as \<open>JNull\<close> (Qt's Undefined), and the accessors \<^verbatim>\<open>toString\<close>,
  \<^verbatim>\<open>toObject\<close>, \<^verbatim>\<open>toArray\<close> fall back to the empty value on a type mismatch,
  as Qt's do. A \<^verbatim>\<open>QString\<close> is a \<open>string\<close>; Qt's null and empty strings compare equal
  under \<^verbatim>\<open>operator==\<close> and are both the empty list here. A JSON number is a double;
  \<open>JNum\<close> carries its value, for the integral values the counters and timestamps take, and
  \<^verbatim>\<open>toDouble\<close> returns it; the conversions between doubles and the integers of the program
  are modelled where the code performs them.
\<close>

datatype json =
    JNull
  | JBool bool
  | JNum int
  | JStr string
  | JArr "json list"
  | JObj "(string \<times> json) list"

type_synonym QJsonObject = "(string \<times> json) list"

definition at_key :: "QJsonObject \<Rightarrow> string \<Rightarrow> json" where
  "at_key obj k = (case map_of obj k of None \<Rightarrow> JNull | Some v \<Rightarrow> v)"

fun toString :: "json \<Rightarrow> string" where
  "toString (JStr s) = s"
| "toString _ = []"

fun toObject :: "json \<Rightarrow> QJsonObject" where
  "toObject (JObj kvs) = kvs"
| "toObject _ = []"

fun toArray :: "json \<Rightarrow> json list" where
  "toArray (JArr vs) = vs"
| "toArray _ = []"

fun toDouble :: "json \<Rightarrow> int \<Rightarrow> int" where
  "toDouble (JNum n) d = n"
| "toDouble _ d = d"

text \<open>
  \<^verbatim>\<open>proto::Event\<close> (declared in \<^verbatim>\<open>proto.hpp\<close>): the fields the engine reads.
  \<open>prev_content\<close> is \<^verbatim>\<open>unsigned_.prev_content\<close>.
\<close>

record Event =
  type :: string
  sender :: string
  event_id :: string
  state_key :: string
  content :: QJsonObject
  prev_content :: "QJsonObject option"

section \<open>Members\<close>

datatype Membership = INVITE | JOIN | LEAVE | BAN

definition membership_displayable :: "Membership \<Rightarrow> bool" where
  "membership_displayable m = (m = JOIN \<or> m = INVITE)"

text \<open>
  Modelled from the spec: \<^verbatim>\<open>parse_membership\<close> is declared in \<^verbatim>\<open>Member.hpp\<close> and defined in
  a file that is not part of the sources at hand. The spec: parsed from the strings
  "invite", "join", "leave", "ban"; unknown values are rejected.
\<close>

definition parse_membership :: "string \<Rightarrow> Membership option" where
  "parse_membership m =
     (if m = ''invite'' then Some INVITE
      else if m = ''join'' then Some JOIN
      else if m = ''leave'' then Some LEAVE
      else if m = ''ban'' then Some BAN
      else None)"

text \<open>
  \<^verbatim>\<open>class Member\<close>. The display name and the avatar are optional, and the class encodes an
  absent one as the empty string (\<^verbatim>\<open>QString display_name_;  // Optional\<close>).
  \<open>Member_of_id\<close> is the constructor \<^verbatim>\<open>explicit Member(UserID id)\<close>, whose membership
  defaults to \<open>LEAVE\<close>.
\<close>

record Member =
  member_id :: string
  display_name :: string
  avatar_url :: string
  membership :: Membership

definition Member_of_id :: "string \<Rightarrow> Member" where
  "Member_of_id i = \<lparr>member_id = i, display_name = [], avatar_url = [], membership = LEAVE\<rparr>"

definition pretty_name_of :: "Member \<Rightarrow> string" where
  "pretty_name_of m = (if display_name m = [] then member_id m else display_name m)"

text \<open>
  Modelled from the spec: \<^verbatim>\<open>Member::update_membership(content)\<close> is declared in
  \<^verbatim>\<open>Member.hpp\<close> and defined outside the sources at hand. The spec: it overwrites the display
  name, the avatar and the membership from the given object; fields absent in the content clear
  the corresponding optional. The keys are those of a Matrix \<^verbatim>\<open>m.room.member\<close> content. The
  spec does not say what an unparsable membership does to the stored one; it is kept here, and
  nothing below depends on that choice.
\<close>

definition Member_update_membership :: "QJsonObject \<Rightarrow> Member \<Rightarrow> Member" where
  "Member_update_membership c m =
     m\<lparr>display_name := toString (at_key c ''displayname''),
       avatar_url := toString (at_key c ''avatar_url''),
       membership := (case parse_membership (toString (at_key c ''membership'')) of
                        None \<Rightarrow> membership m
                      | Some x \<Rightarrow> x)\<rparr>"

section \<open>Room state and its name index\<close>

text \<open>
  \<^verbatim>\<open>class RoomState\<close>: \<open>members_by_id\<close> is the owning map, \<open>members_by_displayname\<close> the
  secondary index from normalised display names to the ids carrying them (a vector, so a list),
  \<open>departed\<close> the single pending deletion, empty when there is none.

  Failures are values: \<^verbatim>\<open>std::unordered_map::at\<close> on a missing key throws
  \<^verbatim>\<open>std::out_of_range\<close> (\<open>OutOfRange\<close>), a failed \<^verbatim>\<open>assert\<close> aborts (\<open>AssertionFailed\<close>),
  and reading the front of an empty queue or a missing error text is undefined behaviour
  (\<open>Undefined\<close>). \<open>NotEnabled\<close> ends a run of the sender on an input its environment
  cannot deliver: a reply with no request in flight, a timeout of a timer that is not running.
\<close>

datatype error = OutOfRange | AssertionFailed | Undefined | NotEnabled

record RoomState =
  name :: string
  canonical_alias :: string
  topic :: string
  avatar :: string
  aliases :: "string list"
  members_by_id :: "string \<rightharpoonup> Member"
  members_by_displayname :: "string \<rightharpoonup> string list"
  departed :: string

definition empty_RoomState :: RoomState where
  "empty_RoomState =
     \<lparr>name = [], canonical_alias = [], topic = [], avatar = [], aliases = [],
      members_by_id = Map.empty, members_by_displayname = Map.empty, departed = []\<rparr>"

text \<open>
  The signals a \<^verbatim>\<open>Room\<close> emits. The functions below return the signals they emit, in
  order, next to the new state. The argument \<open>room\<close> of the state functions is the
  \<^verbatim>\<open>Room *room\<close> of the source: \<open>None\<close> for \<^verbatim>\<open>nullptr\<close>, and \<open>Some r\<close> for a room whose
  \<^verbatim>\<open>id()\<close> is \<open>r\<close>, the only thing the state functions read from it.
\<close>

datatype signal =
    sig_member_disambiguation_changed Member string
  | sig_member_name_changed Member string
  | sig_membership_changed Member Membership
  | sig_left Membership
  | sig_aliases_changed
  | sig_canonical_alias_changed
  | sig_name_changed
  | sig_topic_changed string
  | sig_avatar_changed
  | sig_message Event
  | sig_discontinuity
  | sig_prev_batch string
  | sig_highlight_count_changed nat
  | sig_notification_count_changed nat
  | sig_receipts_changed
  | sig_typing_changed
  | sig_state_changed
  | sig_error string

text \<open>Running one effectful call after another: the first failure wins, signals accumulate.\<close>

definition and_then ::
  "error + ('s \<times> signal list) \<Rightarrow> ('s \<Rightarrow> error + ('t \<times> signal list)) \<Rightarrow> error + ('t \<times> signal list)"
where
  "and_then r f =
     (case r of
        Inl e \<Rightarrow> Inl e
      | Inr (s, g) \<Rightarrow> (case f s of Inl e \<Rightarrow> Inl e | Inr (t, h) \<Rightarrow> Inr (t, g @ h)))"

definition member_from_id :: "RoomState \<Rightarrow> string \<Rightarrow> Member option" where
  "member_from_id s i = members_by_id s i"

text \<open>The normalisation \<^verbatim>\<open>QString::normalized(NormalizationForm_C)\<close> is the parameter \<open>nfc\<close>.\<close>

definition members_named :: "(string \<Rightarrow> string) \<Rightarrow> RoomState \<Rightarrow> string \<Rightarrow> error + string list" where
  "members_named nfc s displayname =
     (case members_by_displayname s (nfc displayname) of
        None \<Rightarrow> Inl OutOfRange
      | Some vec \<Rightarrow> Inr vec)"

definition member_disambiguation :: "(string \<Rightarrow> string) \<Rightarrow> RoomState \<Rightarrow> Member \<Rightarrow> error + string" where
  "member_disambiguation nfc s member =
     (if display_name member = [] then
        (if members_by_displayname s (member_id member) \<noteq> None then Inr (member_id member)
         else Inr [])
      else
        (case members_named nfc s (display_name member) of
           Inl e \<Rightarrow> Inl e
         | Inr vec \<Rightarrow>
             if 1 < length vec \<or> member_from_id s (display_name member) \<noteq> None
             then Inr (member_id member)
             else Inr []))"

definition member_name :: "(string \<Rightarrow> string) \<Rightarrow> RoomState \<Rightarrow> Member \<Rightarrow> error + string" where
  "member_name nfc s member =
     (case member_disambiguation nfc s member of
        Inl e \<Rightarrow> Inl e
      | Inr disambig \<Rightarrow>
          if disambig = [] then Inr (pretty_name_of member)
          else Inr (pretty_name_of member @ '' ('' @ disambig @ '')''))"

text \<open>
  The member \<^verbatim>\<open>forget_displayname\<close> reports on, chosen before the erasure: with callbacks
  attached and not both collisions at once, the other holder of the name when the bucket has
  exactly two entries, or else the member whose id is the normalised name.
\<close>

definition forget_other_member ::
  "RoomState \<Rightarrow> string \<Rightarrow> string list \<Rightarrow> string \<Rightarrow> string option \<Rightarrow> error + Member option"
where
  "forget_other_member s i vec old_name room =
     (let existing_displayname = (length vec = 2);
          existing_mxid = member_from_id s old_name
      in if room \<noteq> None \<and> (\<not> existing_displayname \<or> existing_mxid = None) then
           (case (if existing_displayname
                  then (case members_by_id s (if vec ! 0 = i then vec ! 1 else vec ! 0) of
                          None \<Rightarrow> Inl OutOfRange
                        | Some m \<Rightarrow> Inr (Some m))
                  else Inr None) of
              Inl e \<Rightarrow> Inl e
            | Inr other_member \<Rightarrow>
                Inr (if existing_mxid \<noteq> None then existing_mxid else other_member))
         else Inr None)"

definition forget_displayname ::
  "(string \<Rightarrow> string) \<Rightarrow> string \<Rightarrow> string \<Rightarrow> string option \<Rightarrow> RoomState
     \<Rightarrow> error + (RoomState \<times> signal list)"
where
  "forget_displayname nfc i old_name_in room s =
     (if old_name_in = [] then Inr (s, [])
      else
        let old_name = nfc old_name_in in
        case members_by_displayname s old_name of
          None \<Rightarrow> Inl OutOfRange
        | Some vec \<Rightarrow>
            (case forget_other_member s i vec old_name room of
               Inl e \<Rightarrow> Inl e
             | Inr other_member \<Rightarrow>
                 (case (case other_member of
                          None \<Rightarrow> Inr []
                        | Some m \<Rightarrow> member_disambiguation nfc s m) of
                    Inl e \<Rightarrow> Inl e
                  | Inr other_disambiguation \<Rightarrow>
                      let vec' = removeAll i vec in
                      if length vec - length vec' \<noteq> 1 then Inl AssertionFailed
                      else
                        Inr (s\<lparr>members_by_displayname :=
                                 (if vec' = [] then (members_by_displayname s)(old_name := None)
                                  else (members_by_displayname s)(old_name \<mapsto> vec'))\<rparr>,
                             (case other_member of
                                None \<Rightarrow> []
                              | Some m \<Rightarrow>
                                  [sig_member_disambiguation_changed m other_disambiguation])))))"

definition record_other_member ::
  "RoomState \<Rightarrow> string list \<Rightarrow> string \<Rightarrow> error + Member option"
where
  "record_other_member s vec normalized =
     (let existing_displayname = (length vec = 2);
          existing_mxid = member_from_id s normalized
      in if \<not> existing_displayname \<or> existing_mxid = None then
           (case (if existing_displayname
                  then (case members_by_id s (vec ! 0) of
                          None \<Rightarrow> Inl OutOfRange
                        | Some m \<Rightarrow> Inr (Some m))
                  else Inr None) of
              Inl e \<Rightarrow> Inl e
            | Inr other_member \<Rightarrow>
                Inr (if existing_mxid \<noteq> None then existing_mxid else other_member))
         else Inr None)"

definition record_displayname ::
  "(string \<Rightarrow> string) \<Rightarrow> string \<Rightarrow> string \<Rightarrow> string option \<Rightarrow> RoomState
     \<Rightarrow> error + (RoomState \<times> signal list)"
where
  "record_displayname nfc i nm room s =
     (if nm = [] then Inr (s, [])
      else
        let normalized = nfc nm;
            vec0 = (case members_by_displayname s normalized of None \<Rightarrow> [] | Some v \<Rightarrow> v)
        in if i \<in> set vec0 then Inl AssertionFailed
           else
             let vec = vec0 @ [i];
                 s' = s\<lparr>members_by_displayname := (members_by_displayname s)(normalized \<mapsto> vec)\<rparr>
             in if room = None then Inr (s', [])
                else
                  (case record_other_member s' vec normalized of
                     Inl e \<Rightarrow> Inl e
                   | Inr other_member \<Rightarrow>
                       Inr (s', (case other_member of
                                   None \<Rightarrow> []
                                 | Some m \<Rightarrow> [sig_member_disambiguation_changed m []]))))"

section \<open>Applying state events\<close>

text \<open>
  \<^verbatim>\<open>RoomState::update_membership\<close>, by the branch of its \<^verbatim>\<open>switch\<close>. The member store
  (\<^verbatim>\<open>member_db\<close>, \<^verbatim>\<open>txn\<close>) is written next to the snapshot and never read back by these
  functions; it is not part of the snapshot and is left out of the state.
\<close>

definition update_membership_join ::
  "(string \<Rightarrow> string) \<Rightarrow> string \<Rightarrow> QJsonObject \<Rightarrow> Membership \<Rightarrow> string option \<Rightarrow> RoomState
     \<Rightarrow> error + (RoomState \<times> signal list)"
where
  "update_membership_join nfc user c mship room s =
     (let member0 = (case members_by_id s user of None \<Rightarrow> Member_of_id user | Some m \<Rightarrow> m);
          s0 = s\<lparr>members_by_id := (members_by_id s)(user \<mapsto> member0)\<rparr>;
          old_membership = membership member0;
          old_displayname = display_name member0
      in case member_name nfc s0 member0 of
           Inl e \<Rightarrow> Inl e
         | Inr old_member_name \<Rightarrow>
             let member = Member_update_membership c member0;
                 s1 = s0\<lparr>members_by_id := (members_by_id s0)(user \<mapsto> member)\<rparr>
             in and_then
                  (if display_name member \<noteq> old_displayname then
                     and_then
                       (and_then
                          (forget_displayname nfc (member_id member) old_displayname room s1)
                          (record_displayname nfc (member_id member) (display_name member) room))
                       (\<lambda>s2. Inr (s2, if room \<noteq> None \<and> membership_displayable old_membership
                                      then [sig_member_name_changed member old_member_name]
                                      else []))
                   else Inr (s1, []))
                  (\<lambda>s3. Inr (s3, if room \<noteq> None \<and> membership member \<noteq> old_membership
                                 then [sig_membership_changed member mship]
                                 else [])))"

definition update_membership_leave ::
  "(string \<Rightarrow> string) \<Rightarrow> string \<Rightarrow> QJsonObject \<Rightarrow> Membership \<Rightarrow> string option \<Rightarrow> RoomState
     \<Rightarrow> error + (RoomState \<times> signal list)"
where
  "update_membership_leave nfc user c mship room s =
     and_then
       (Inr (s, if (case room of None \<Rightarrow> False | Some room_id \<Rightarrow> user = room_id)
                then [sig_left mship] else []))
       (\<lambda>s. case members_by_id s user of
               None \<Rightarrow> Inr (s, [])
             | Some member0 \<Rightarrow>
                 let old_displayname = display_name member0;
                     member = Member_update_membership c member0;
                     s1 = s\<lparr>members_by_id := (members_by_id s)(user \<mapsto> member)\<rparr>
                 in and_then
                      (if display_name member \<noteq> old_displayname then
                         and_then
                           (forget_displayname nfc (member_id member) old_displayname room s1)
                           (record_displayname nfc (member_id member) (display_name member) room)
                       else Inr (s1, []))
                      (\<lambda>s2. if departed s2 \<noteq> [] then Inl AssertionFailed
                            else Inr (s2\<lparr>departed := member_id member\<rparr>,
                                      if room \<noteq> None then [sig_membership_changed member mship]
                                      else [])))"

definition update_membership ::
  "(string \<Rightarrow> string) \<Rightarrow> string \<Rightarrow> QJsonObject \<Rightarrow> string option \<Rightarrow> RoomState
     \<Rightarrow> error + (bool \<times> RoomState \<times> signal list)"
where
  "update_membership nfc user c room s =
     (case (if c = [] then Some LEAVE
            else parse_membership (toString (at_key c ''membership''))) of
        None \<Rightarrow> Inr (False, s, [])
      | Some mship \<Rightarrow>
          (case (case mship of
                   INVITE \<Rightarrow> update_membership_join nfc user c mship room s
                 | JOIN \<Rightarrow> update_membership_join nfc user c mship room s
                 | LEAVE \<Rightarrow> update_membership_leave nfc user c mship room s
                 | BAN \<Rightarrow> update_membership_leave nfc user c mship room s) of
             Inl e \<Rightarrow> Inl e
           | Inr (s', g) \<Rightarrow> Inr (True, s', g)))"

text \<open>
  \<^verbatim>\<open>RoomState::dispatch\<close>. The aliases pass through a \<^verbatim>\<open>std::unordered_set\<close>, whose
  iteration order is unspecified; the merged vector is rendered as \<open>remdups\<close> of old and new.
  The avatar's \<^verbatim>\<open>QUrl\<close> is kept as the string it is built from.
\<close>

definition dispatch ::
  "(string \<Rightarrow> string) \<Rightarrow> Event \<Rightarrow> string option \<Rightarrow> RoomState
     \<Rightarrow> error + (bool \<times> RoomState \<times> signal list)"
where
  "dispatch nfc e room s =
     (if type e = ''m.room.message'' then Inr (False, s, [])
      else if type e = ''m.room.aliases'' then
        Inr (True,
             s\<lparr>aliases := remdups (aliases s @ map toString (toArray (at_key (content e) ''aliases'')))\<rparr>,
             if room \<noteq> None then [sig_aliases_changed] else [])
      else if type e = ''m.room.canonical_alias'' then
        (let new = toString (at_key (content e) ''alias'')
         in Inr (True, s\<lparr>canonical_alias := new\<rparr>,
                 if room \<noteq> None \<and> new \<noteq> canonical_alias s then [sig_canonical_alias_changed] else []))
      else if type e = ''m.room.name'' then
        (let new = toString (at_key (content e) ''name'')
         in Inr (True, s\<lparr>name := new\<rparr>,
                 if room \<noteq> None \<and> new \<noteq> name s then [sig_name_changed] else []))
      else if type e = ''m.room.topic'' then
        (let new = toString (at_key (content e) ''topic'')
         in Inr (True, s\<lparr>topic := new\<rparr>,
                 if room \<noteq> None \<and> new \<noteq> topic s then [sig_topic_changed (topic s)] else []))
      else if type e = ''m.room.avatar'' then
        (let new = toString (at_key (content e) ''url'')
         in Inr (True, s\<lparr>avatar := new\<rparr>,
                 if room \<noteq> None \<and> new \<noteq> avatar s then [sig_avatar_changed] else []))
      else if type e = ''m.room.create'' then Inr (False, s, [])
      else if type e = ''m.room.member'' then update_membership nfc (state_key e) (content e) room s
      else Inr (False, s, []))"

definition prune_departed ::
  "(string \<Rightarrow> string) \<Rightarrow> string option \<Rightarrow> RoomState \<Rightarrow> error + (RoomState \<times> signal list)"
where
  "prune_departed nfc room s =
     (if departed s \<noteq> [] then
        (case members_by_id s (departed s) of
           None \<Rightarrow> Inl OutOfRange
         | Some m \<Rightarrow>
             and_then (forget_displayname nfc (departed s) (display_name m) room s)
               (\<lambda>s'. Inr (s'\<lparr>members_by_id := (members_by_id s')(departed s := None),
                              departed := []\<rparr>, [])))
      else Inr (s, []))"

text \<open>
  Modelled from the spec: \<^verbatim>\<open>RoomState::apply\<close> is declared in \<^verbatim>\<open>Room.hpp\<close>, which is not
  among the sources at hand. The spec: forward dispatch without callbacks or persistence.
\<close>

definition apply_event ::
  "(string \<Rightarrow> string) \<Rightarrow> Event \<Rightarrow> RoomState \<Rightarrow> error + (bool \<times> RoomState \<times> signal list)"
where
  "apply_event nfc e s = dispatch nfc e None s"

text \<open>
  One step of the ingestion loops: a \<open>dispatch\<close> followed by its \<open>prune_departed\<close>.
  \<^verbatim>\<open>Room::dispatch\<close> passes the room to both, \<^verbatim>\<open>Room::load_state\<close> passes it to
  \<open>dispatch\<close> only, and the constructor and the eviction loop, which call \<open>apply\<close>,
  pass it to neither (\<open>dispatch_and_prune nfc e None None\<close> is \<open>apply_event\<close> followed by
  \<open>prune_departed\<close>); hence the two arguments \<open>room\<close> and \<open>prune_room\<close>.
\<close>

definition dispatch_and_prune ::
  "(string \<Rightarrow> string) \<Rightarrow> Event \<Rightarrow> string option \<Rightarrow> string option \<Rightarrow> RoomState
     \<Rightarrow> error + (bool \<times> RoomState \<times> signal list)"
where
  "dispatch_and_prune nfc e room prune_room s =
     (case dispatch nfc e room s of
        Inl err \<Rightarrow> Inl err
      | Inr (touched, s1, g1) \<Rightarrow>
          (case prune_departed nfc prune_room s1 of
             Inl err \<Rightarrow> Inl err
           | Inr (s2, g2) \<Rightarrow> Inr (touched, s2, g1 @ g2)))"

text \<open>The loop over a sequence of events, each dispatched and pruned in turn.\<close>

fun ingest ::
  "(string \<Rightarrow> string) \<Rightarrow> Event list \<Rightarrow> string option \<Rightarrow> string option \<Rightarrow> RoomState
     \<Rightarrow> error + (bool \<times> RoomState \<times> signal list)"
where
  "ingest nfc [] room prune_room s = Inr (False, s, [])"
| "ingest nfc (e # es) room prune_room s =
     (case dispatch_and_prune nfc e room prune_room s of
        Inl err \<Rightarrow> Inl err
      | Inr (touched, s1, g1) \<Rightarrow>
          (case ingest nfc es room prune_room s1 of
             Inl err \<Rightarrow> Inl err
           | Inr (touched', s2, g2) \<Rightarrow> Inr (touched \<or> touched', s2, g1 @ g2)))"

section \<open>Rooms\<close>

record TimelineBatch =
  prev_batch :: string
  events :: "Event list"

record Receipt =
  event :: string
  ts :: nat

text \<open>
  Modelled from the spec: the \<^verbatim>\<open>Session\<close> is an external collaborator (\<^verbatim>\<open>Session.hpp\<close> is
  not among the sources). The spec: it supplies the user id, the buffer capacity bound and a
  monotonic transaction-id generator. The generator is a counter; \<open>txn_id\<close>, a parameter of the
  functions that draw an id, renders a counter value as the id string.
\<close>

record Session =
  user_id :: string
  buffer_size :: nat
  next_transaction :: nat

definition get_transaction_id :: "(nat \<Rightarrow> string) \<Rightarrow> Session \<Rightarrow> string \<times> Session" where
  "get_transaction_id txn_id sess =
     (txn_id (next_transaction sess), sess\<lparr>next_transaction := Suc (next_transaction sess)\<rparr>)"

text \<open>
  \<^verbatim>\<open>MINIMUM_BACKOFF\<close>, five seconds as a \<^verbatim>\<open>std::chrono::steady_clock::duration\<close>, which
  counts nanoseconds in a signed 64-bit integer on the standard libraries in use.
\<close>

definition MINIMUM_BACKOFF :: nat where
  "MINIMUM_BACKOFF = 5000000000"

text \<open>
  \<^verbatim>\<open>class Room\<close> (its declaration, \<^verbatim>\<open>Room.hpp\<close>, is not among the sources; the fields are
  those \<^verbatim>\<open>Room.cpp\<close> uses and the spec lists). \<open>receipts_by_user\<close> is a map the code also
  iterates over, hence an association list with one entry per user; \<open>receipts_by_event\<close> holds
  pointers into it, here the users whose entries are pointed at. \<open>retry_backoff\<close> is in
  nanoseconds; \<open>transmit_retry_timer\<close> is \<open>Some ms\<close> while the single-shot timer runs.
\<close>

record Room =
  room_id :: string
  session :: Session
  initial_state :: RoomState
  state :: RoomState
  buffer :: "TimelineBatch list"
  highlight_count :: nat
  notification_count :: nat
  receipts_by_user :: "(string \<times> Receipt) list"
  receipts_by_event :: "string \<rightharpoonup> string list"
  typing :: "string list"
  pending_events :: "(string \<times> QJsonObject) list"
  transmitting :: bool
  last_transmit_transaction :: string
  retry_backoff :: nat
  transmit_retry_timer :: "nat option"

text \<open>
  The constructor \<^verbatim>\<open>Room::Room\<close> given an empty JSON object: nothing stored, nothing in
  flight, the back-off at its floor.
\<close>

definition new_Room :: "string \<Rightarrow> Session \<Rightarrow> Room" where
  "new_Room rid sess =
     \<lparr>room_id = rid, session = sess, initial_state = empty_RoomState, state = empty_RoomState,
      buffer = [], highlight_count = 0, notification_count = 0, receipts_by_user = [],
      receipts_by_event = Map.empty, typing = [], pending_events = [], transmitting = False,
      last_transmit_transaction = [], retry_backoff = MINIMUM_BACKOFF,
      transmit_retry_timer = None\<rparr>"

text \<open>
  What a call leaves behind, in order: the signals it emits, the calls of \<open>update_receipt\<close>
  it makes, the requests it issues (\<open>Put room type txn content\<close> for
  \<^verbatim>\<open>PUT client/r0/rooms/{room}/send/{type}/{txn}\<close>), the \<^verbatim>\<open>pop_front\<close> of the send
  queue and the start of the retry timer, with its delay in milliseconds.
\<close>

datatype action =
    Emit signal
  | Call_update_receipt string string nat
  | Put string string string QJsonObject
  | Pop_front
  | Start_timer nat

definition Room_buffer_size :: "Room \<Rightarrow> nat" where
  "Room_buffer_size r = sum_list (map (\<lambda>x. length (events x)) (buffer r))"

subsection \<open>Numbers\<close>

text \<open>
  A number of a \<^verbatim>\<open>QJsonValue\<close> is a double. The numbers the program writes are integers
  converted to double, and \<open>JNum\<close> carries the value of the double. \<open>double_of_int\<close> is that
  conversion (IEEE 754 binary64, rounding to nearest, ties to even): the integer is cut to a
  significand of 53 bits, so every integer of magnitude up to \<open>2^53\<close> is kept and larger
  ones are rounded; no 64-bit integer is out of the range of a double.
\<close>

fun bit_length :: "nat \<Rightarrow> nat" where
  "bit_length n = (if n = 0 then 0 else Suc (bit_length (n div 2)))"

declare bit_length.simps [simp del]

definition double_of_int :: "int \<Rightarrow> int" where
  "double_of_int n =
     (let a = nat \<bar>n\<bar>;
          e = bit_length a - 53;
          q = a div 2 ^ e;
          r = a mod 2 ^ e;
          q' = (if 2 ^ e < 2 * r \<or> (2 * r = 2 ^ e \<and> odd q) then q + 1 else q)
      in sgn n * int (q' * 2 ^ e))"

text \<open>
  \<^verbatim>\<open>static_cast<qint64>\<close> of a \<^verbatim>\<open>uint64_t\<close>: the same 64 bits read as a signed number, so
  values from \<open>2^63\<close> on come out negative.
\<close>

definition qint64_of :: "nat \<Rightarrow> int" where
  "qint64_of n =
     (if n mod 2 ^ 64 < 2 ^ 63 then int (n mod 2 ^ 64) else int (n mod 2 ^ 64) - 2 ^ 64)"

text \<open>
  The conversion of a double to \<^verbatim>\<open>uint64_t\<close>, which the code leaves to the compiler where it
  passes or assigns the result of \<^verbatim>\<open>toDouble\<close>: the value when it fits, undefined behaviour
  when it is negative or \<open>2^64\<close> and above.
\<close>

definition to_uint64 :: "int \<Rightarrow> error + nat" where
  "to_uint64 d = (if 0 \<le> d \<and> d < 2 ^ 64 then Inr (nat d) else Inl Undefined)"

subsection \<open>Receipts\<close>


definition update_receipt :: "string \<Rightarrow> string \<Rightarrow> nat \<Rightarrow> Room \<Rightarrow> Room" where
  "update_receipt user ev t r =
     (let new_value = \<lparr>event = ev, ts = t\<rparr>;
          by_event = (case map_of (receipts_by_user r) user of
                        None \<Rightarrow> receipts_by_event r
                      | Some old \<Rightarrow>
                          (case receipts_by_event r (event old) of
                             None \<Rightarrow> receipts_by_event r
                           | Some vec \<Rightarrow> (receipts_by_event r)(event old \<mapsto> removeAll user vec)))
      in r\<lparr>receipts_by_user := AList.update user new_value (receipts_by_user r),
           receipts_by_event :=
             by_event(ev \<mapsto> (case by_event ev of None \<Rightarrow> [] | Some vec \<Rightarrow> vec) @ [user])\<rparr>)"




subsection \<open>Sync deltas\<close>

text \<open>
  \<^verbatim>\<open>proto::JoinedRoom\<close>, flattened: the unread counts, the timeline and the ephemeral
  events.
\<close>

record JoinedRoom =
  unread_highlight_count :: nat
  unread_notification_count :: nat
  timeline_limited :: bool
  timeline_prev_batch :: string
  timeline_events :: "Event list"
  ephemeral_events :: "Event list"

text \<open>
  The timeline loop of \<^verbatim>\<open>Room::dispatch\<close>: dispatch, append to the batch, \<open>message\<close>, prune.
  The appended events are exactly the incoming ones, so the loop returns the state only.
\<close>

fun dispatch_timeline ::
  "(string \<Rightarrow> string) \<Rightarrow> string \<Rightarrow> Event list \<Rightarrow> RoomState
     \<Rightarrow> error + (bool \<times> RoomState \<times> signal list)"
where
  "dispatch_timeline nfc rid [] s = Inr (False, s, [])"
| "dispatch_timeline nfc rid (evt # evts) s =
     (case dispatch nfc evt (Some rid) s of
        Inl err \<Rightarrow> Inl err
      | Inr (touched, s1, g1) \<Rightarrow>
          (case prune_departed nfc (Some rid) s1 of
             Inl err \<Rightarrow> Inl err
           | Inr (s2, g2) \<Rightarrow>
               (case dispatch_timeline nfc rid evts s2 of
                  Inl err \<Rightarrow> Inl err
                | Inr (touched', s3, g3) \<Rightarrow>
                    Inr (touched \<or> touched', s3, g1 @ [sig_message evt] @ g2 @ g3))))"

text \<open>
  The eviction loop: while the buffer without its front batch still holds at least the
  session's bound of events, the front batch is applied to \<open>initial_state\<close> (\<open>apply\<close> and
  \<open>prune_departed\<close> for each of its events) and dropped.
\<close>

fun evict ::
  "(string \<Rightarrow> string) \<Rightarrow> nat \<Rightarrow> RoomState \<Rightarrow> TimelineBatch list
     \<Rightarrow> error + (RoomState \<times> TimelineBatch list)"
where
  "evict nfc cap init [] = Inr (init, [])"
| "evict nfc cap init (b # bs) =
     (if cap \<le> sum_list (map (\<lambda>x. length (events x)) (b # bs)) - length (events b) then
        (case ingest nfc (events b) None None init of
           Inl err \<Rightarrow> Inl err
         | Inr (touched, init', g) \<Rightarrow> evict nfc cap init' bs)
      else Inr (init, b # bs))"

text \<open>
  The receipts one \<^verbatim>\<open>m.receipt\<close> event carries, in the order the two nested loops visit
  them: for each event id of the content, for each user under \<^verbatim>\<open>m.read\<close>, with the
  timestamp as \<^verbatim>\<open>toDouble\<close> returns it.
\<close>

definition receipt_updates :: "Event \<Rightarrow> (string \<times> string \<times> int) list" where
  "receipt_updates evt =
     concat (map (\<lambda>(read_evt, v).
                    map (\<lambda>(user, uv). (user, read_evt, toDouble (at_key (toObject uv) ''ts'') 0))
                        (toObject (at_key (toObject v) ''m.read'')))
                 (content evt))"

text \<open>
  The calls \<^verbatim>\<open>update_receipt(user, event, ts)\<close> of those loops; each converts the double to
  the \<^verbatim>\<open>uint64_t\<close> parameter.
\<close>

fun apply_receipts :: "(string \<times> string \<times> int) list \<Rightarrow> Room \<Rightarrow> error + (Room \<times> action list)" where
  "apply_receipts [] r = Inr (r, [])"
| "apply_receipts ((user, ev, d) # ups) r =
     (case to_uint64 d of
        Inl err \<Rightarrow> Inl err
      | Inr t \<Rightarrow>
          (case apply_receipts ups (update_receipt user ev t r) of
             Inl err \<Rightarrow> Inl err
           | Inr (r', a) \<Rightarrow> Inr (r', Call_update_receipt user ev t # a)))"

fun dispatch_ephemeral :: "Event list \<Rightarrow> Room \<Rightarrow> error + (Room \<times> action list)" where
  "dispatch_ephemeral [] r = Inr (r, [])"
| "dispatch_ephemeral (evt # evts) r =
     (if type evt = ''m.receipt'' then
        (case apply_receipts (receipt_updates evt) r of
           Inl err \<Rightarrow> Inl err
         | Inr (r1, calls) \<Rightarrow>
             (case dispatch_ephemeral evts r1 of
                Inl err \<Rightarrow> Inl err
              | Inr (r2, rest) \<Rightarrow> Inr (r2, calls @ [Emit sig_receipts_changed] @ rest)))
      else if type evt = ''m.typing'' then
        (case dispatch_ephemeral evts
                (r\<lparr>typing := map toString (toArray (at_key (content evt) ''user_ids''))\<rparr>) of
           Inl err \<Rightarrow> Inl err
         | Inr (r2, rest) \<Rightarrow> Inr (r2, [Emit sig_typing_changed] @ rest))
      else dispatch_ephemeral evts r)"

text \<open>
  \<^verbatim>\<open>Room::dispatch\<close> in its three parts: the unread counts; the timeline (the reset on a
  limited sync, the \<open>prev_batch\<close> signal, the new batch or the retargeted last one, and the
  eviction); the ephemeral events, followed by \<open>state_changed\<close>.
\<close>

definition dispatch_counts :: "JoinedRoom \<Rightarrow> Room \<Rightarrow> Room \<times> signal list" where
  "dispatch_counts joined r =
     (r\<lparr>highlight_count := unread_highlight_count joined,
        notification_count := unread_notification_count joined\<rparr>,
      (if unread_highlight_count joined \<noteq> highlight_count r
       then [sig_highlight_count_changed (highlight_count r)] else [])
      @ (if unread_notification_count joined \<noteq> notification_count r
         then [sig_notification_count_changed (notification_count r)] else []))"

definition dispatch_batch ::
  "(string \<Rightarrow> string) \<Rightarrow> JoinedRoom \<Rightarrow> Room \<Rightarrow> error + (bool \<times> Room \<times> signal list)"
where
  "dispatch_batch nfc joined r =
     (let buf = (if timeline_limited joined then [] else buffer r);
          g_reset = (if timeline_limited joined then [sig_discontinuity] else [])
                    @ [sig_prev_batch (timeline_prev_batch joined)]
      in if timeline_events joined = [] \<and> buf \<noteq> [] then
           Inr (False,
                r\<lparr>buffer := butlast buf @ [(last buf)\<lparr>prev_batch := timeline_prev_batch joined\<rparr>]\<rparr>,
                g_reset)
         else
           (case dispatch_timeline nfc (room_id r) (timeline_events joined) (state r) of
              Inl err \<Rightarrow> Inl err
            | Inr (touched, st, g) \<Rightarrow>
                (case evict nfc (buffer_size (session r)) (initial_state r)
                        (buf @ [\<lparr>prev_batch = timeline_prev_batch joined,
                                 events = timeline_events joined\<rparr>]) of
                   Inl err \<Rightarrow> Inl err
                 | Inr (init, buf') \<Rightarrow>
                     Inr (touched, r\<lparr>initial_state := init, state := st, buffer := buf'\<rparr>,
                          g_reset @ g))))"

definition Room_dispatch ::
  "(string \<Rightarrow> string) \<Rightarrow> JoinedRoom \<Rightarrow> Room \<Rightarrow> error + (bool \<times> Room \<times> action list)"
where
  "Room_dispatch nfc joined r =
     (let (r1, g_counts) = dispatch_counts joined r
      in case dispatch_batch nfc joined r1 of
           Inl err \<Rightarrow> Inl err
         | Inr (state_touched, r2, g_timeline) \<Rightarrow>
             (case dispatch_ephemeral (ephemeral_events joined) r2 of
                Inl err \<Rightarrow> Inl err
              | Inr (r3, a_ephemeral) \<Rightarrow>
                  Inr (state_touched, r3,
                       map Emit (g_counts @ g_timeline) @ a_ephemeral
                       @ (if state_touched then [Emit sig_state_changed] else []))))"

subsection \<open>The sender\<close>

text \<open>
  \<^verbatim>\<open>decode(reply)\<close> (from \<^verbatim>\<open>utils.hpp\<close>) yields the HTTP status and an optional error text.
\<close>

record Reply =
  code :: int
  error_string :: "string option"

definition transmit_event :: "(nat \<Rightarrow> string) \<Rightarrow> Room \<Rightarrow> error + (Room \<times> action list)" where
  "transmit_event txn_id r =
     (if transmitting r then Inr (r, [])
      else case pending_events r of
             [] \<Rightarrow> Inl Undefined
           | ev # q \<Rightarrow>
               (let (txn, sess) = (if last_transmit_transaction r = []
                                   then get_transaction_id txn_id (session r)
                                   else (last_transmit_transaction r, session r))
                in Inr (r\<lparr>session := sess, last_transmit_transaction := txn, transmitting := True\<rparr>,
                        [Put (room_id r) (fst ev) txn (snd ev)])))"

definition send :: "(nat \<Rightarrow> string) \<Rightarrow> string \<Rightarrow> QJsonObject \<Rightarrow> Room \<Rightarrow> error + (Room \<times> action list)" where
  "send txn_id ty c r = transmit_event txn_id (r\<lparr>pending_events := pending_events r @ [(ty, c)]\<rparr>)"

text \<open>
  \<^verbatim>\<open>Room::transmit_finished\<close>. The product \<^verbatim>\<open>1.25 * retry_backoff_\<close> is a double; for a
  count of nanoseconds up to thirty seconds it is exact (a multiple of a quarter below
  \<open>2^53\<close>), and the cast back to the integer duration truncates it: \<open>5 * b div 4\<close>. The timer
  is started with the whole milliseconds of the back-off.
\<close>

definition transmit_finished ::
  "(nat \<Rightarrow> string) \<Rightarrow> Reply \<Rightarrow> Room \<Rightarrow> error + (Room \<times> action list)"
where
  "transmit_finished txn_id reply r0 =
     (let r = r0\<lparr>transmitting := False\<rparr> in
      case (if 400 \<le> code reply \<and> code reply < 500 \<and> code reply \<noteq> 429 then
              (case error_string reply of
                 None \<Rightarrow> Inl Undefined
               | Some msg \<Rightarrow>
                   (case pending_events r of
                      [] \<Rightarrow> Inl Undefined
                    | ev # q \<Rightarrow> Inr (False, r\<lparr>pending_events := q\<rparr>, [Emit (sig_error msg), Pop_front])))
            else if error_string reply = None then
              (case pending_events r of
                 [] \<Rightarrow> Inl Undefined
               | ev # q \<Rightarrow> Inr (False, r\<lparr>pending_events := q\<rparr>, [Pop_front]))
            else Inr (True, r, [])) of
        Inl err \<Rightarrow> Inl err
      | Inr (retrying, r1, a1) \<Rightarrow>
          (let r2 = (if \<not> retrying
                     then r1\<lparr>last_transmit_transaction := [], retry_backoff := MINIMUM_BACKOFF\<rparr>
                     else r1)
           in if pending_events r2 \<noteq> [] then
                (if retrying then
                   Inr (r2\<lparr>transmit_retry_timer := Some (retry_backoff r2 div 1000000),
                           retry_backoff := min 30000000000 (5 * retry_backoff r2 div 4)\<rparr>,
                        a1 @ [Start_timer (retry_backoff r2 div 1000000)])
                 else
                   (case transmit_event txn_id r2 of
                      Inl err \<Rightarrow> Inl err
                    | Inr (r3, a3) \<Rightarrow> Inr (r3, a1 @ a3)))
              else Inr (r2, a1)))"

text \<open>
  What drives the sender: a call of \<open>send\<close>, the completion of the request in flight, the
  expiry of the retry timer (which calls \<open>transmit_event\<close>).
\<close>

datatype input = Send string QJsonObject | Finished Reply | Timeout

definition sender_step :: "(nat \<Rightarrow> string) \<Rightarrow> input \<Rightarrow> Room \<Rightarrow> error + (Room \<times> action list)" where
  "sender_step txn_id inp r =
     (case inp of
        Send ty c \<Rightarrow> send txn_id ty c r
      | Finished reply \<Rightarrow>
          if transmitting r then transmit_finished txn_id reply r else Inl NotEnabled
      | Timeout \<Rightarrow>
          (case transmit_retry_timer r of
             None \<Rightarrow> Inl NotEnabled
           | Some ms \<Rightarrow> transmit_event txn_id (r\<lparr>transmit_retry_timer := None\<rparr>)))"

fun sender_run :: "(nat \<Rightarrow> string) \<Rightarrow> input list \<Rightarrow> Room \<Rightarrow> error + (Room \<times> action list)" where
  "sender_run txn_id [] r = Inr (r, [])"
| "sender_run txn_id (inp # inps) r =
     (case sender_step txn_id inp r of
        Inl err \<Rightarrow> Inl err
      | Inr (r1, a1) \<Rightarrow>
          (case sender_run txn_id inps r1 of
             Inl err \<Rightarrow> Inl err
           | Inr (r2, a2) \<Rightarrow> Inr (r2, a1 @ a2)))"

subsection \<open>Persisting a room\<close>

text \<open>
  \<^verbatim>\<open>RoomState::to_json\<close>. Members are not part of it: they live in the member store. The
  tests \<^verbatim>\<open>isNull\<close> and \<^verbatim>\<open>isEmpty\<close> coincide here, null and empty strings being one.
\<close>

definition RoomState_to_json :: "RoomState \<Rightarrow> QJsonObject" where
  "RoomState_to_json s =
     (if name s \<noteq> [] then [(''name'', JStr (name s))] else [])
     @ (if canonical_alias s \<noteq> [] then [(''canonical_alias'', JStr (canonical_alias s))] else [])
     @ (if topic s \<noteq> [] then [(''topic'', JStr (topic s))] else [])
     @ (if avatar s \<noteq> [] then [(''avatar'', JStr (avatar s))] else [])
     @ [(''aliases'', JArr (map JStr (aliases s)))]"

text \<open>
  Modelled from the spec: the constructor \<^verbatim>\<open>Member(id, json)\<close> is declared in
  \<^verbatim>\<open>Member.hpp\<close> and defined outside the sources at hand. The spec: construct from (id, JSON
  object) initializing display name, avatar, membership.
\<close>

definition Member_of_json :: "string \<Rightarrow> QJsonObject \<Rightarrow> Member" where
  "Member_of_json i obj = Member_update_membership obj (Member_of_id i)"

text \<open>
  The constructor \<^verbatim>\<open>RoomState(info, txn, member_db)\<close>: the metadata from \<open>info\<close>, then
  the cursor scan of the member store, here the list of its (id, member JSON) pairs in cursor
  order; each member is emplaced and its display name recorded, without callbacks.
\<close>

fun load_members ::
  "(string \<Rightarrow> string) \<Rightarrow> (string \<times> QJsonObject) list \<Rightarrow> RoomState \<Rightarrow> error + RoomState"
where
  "load_members nfc [] s = Inr s"
| "load_members nfc ((id_str, obj) # rest) s =
     (let member = (case members_by_id s id_str of
                      None \<Rightarrow> Member_of_json id_str obj
                    | Some m \<Rightarrow> m);
          s1 = s\<lparr>members_by_id := (members_by_id s)(id_str \<mapsto> member)\<rparr>
      in case record_displayname nfc (member_id member) (display_name member) None s1 of
           Inl err \<Rightarrow> Inl err
         | Inr (s2, g) \<Rightarrow> load_members nfc rest s2)"

definition RoomState_of_json ::
  "(string \<Rightarrow> string) \<Rightarrow> QJsonObject \<Rightarrow> (string \<times> QJsonObject) list \<Rightarrow> error + RoomState"
where
  "RoomState_of_json nfc info member_db =
     load_members nfc member_db
       \<lparr>name = toString (at_key info ''name''),
        canonical_alias = toString (at_key info ''canonical_alias''),
        topic = toString (at_key info ''topic''),
        avatar = toString (at_key info ''avatar''),
        aliases = map toString (toArray (at_key info ''aliases'')),
        members_by_id = Map.empty, members_by_displayname = Map.empty, departed = []\<rparr>"

text \<open>
  \<^verbatim>\<open>Room::to_json\<close> and the constructor \<^verbatim>\<open>Room::Room\<close>. The event codec
  (\<^verbatim>\<open>proto::to_json\<close>, \<^verbatim>\<open>parse_event\<close>) is declared outside the sources at hand and is a
  parameter. Only the last batch of the buffer is written, and one batch at most is read back.
  The two counters are written with \<^verbatim>\<open>static_cast<double>\<close>, a timestamp with
  \<^verbatim>\<open>static_cast<qint64>\<close>, which the JSON value then stores as a double; the constructor
  converts the doubles it reads back to the unsigned 64-bit fields (the counters are taken to
  be 64 bits wide, like the timestamp).
\<close>

definition Room_to_json :: "(Event \<Rightarrow> json) \<Rightarrow> Room \<Rightarrow> QJsonObject" where
  "Room_to_json event_to_json r =
     [(''initial_state'', JObj (RoomState_to_json (initial_state r))),
      (''buffer'',
         JObj (if buffer r \<noteq> [] then
                 [(''prev_batch'', JStr (prev_batch (last (buffer r)))),
                  (''events'', JArr (map event_to_json (events (last (buffer r)))))]
               else [])),
      (''highlight_count'', JNum (double_of_int (int (highlight_count r)))),
      (''notification_count'', JNum (double_of_int (int (notification_count r)))),
      (''receipts'',
         JObj (map (\<lambda>(user, rc). (user, JObj [(''event_id'', JStr (event rc)),
                                                 (''ts'', JNum (double_of_int (qint64_of (ts rc))))]))
                   (receipts_by_user r)))]"

fun load_receipts :: "QJsonObject \<Rightarrow> Room \<Rightarrow> error + Room" where
  "load_receipts [] r = Inr r"
| "load_receipts ((user, v) # rest) r =
     (case to_uint64 (toDouble (at_key (toObject v) ''ts'') 0) of
        Inl err \<Rightarrow> Inl err
      | Inr t \<Rightarrow>
          load_receipts rest
            (update_receipt user (toString (at_key (toObject v) ''event_id'')) t r))"

definition Room_of_json ::
  "(string \<Rightarrow> string) \<Rightarrow> (json \<Rightarrow> Event) \<Rightarrow> Session \<Rightarrow> string \<Rightarrow> QJsonObject
     \<Rightarrow> (string \<times> QJsonObject) list \<Rightarrow> error + Room"
where
  "Room_of_json nfc parse_event sess rid initial member_db =
     (if initial = [] then Inr (new_Room rid sess)
      else
        case RoomState_of_json nfc (toObject (at_key initial ''initial_state'')) member_db of
          Inl err \<Rightarrow> Inl err
        | Inr init \<Rightarrow>
            (let b = toObject (at_key initial ''buffer'') in
             case (if b \<noteq> [] then
                     (let evts = map parse_event (toArray (at_key b ''events'')) in
                      case ingest nfc evts None None init of
                        Inl err \<Rightarrow> Inl err
                      | Inr (touched, st, g) \<Rightarrow>
                          Inr ([\<lparr>prev_batch = toString (at_key b ''prev_batch''), events = evts\<rparr>], st))
                   else Inr ([], init)) of
               Inl err \<Rightarrow> Inl err
             | Inr (buf, st) \<Rightarrow>
                 (case to_uint64 (toDouble (at_key initial ''highlight_count'') 0) of
                    Inl err \<Rightarrow> Inl err
                  | Inr highlights \<Rightarrow>
                      (case to_uint64 (toDouble (at_key initial ''notification_count'') 0) of
                         Inl err \<Rightarrow> Inl err
                       | Inr notifications \<Rightarrow>
                           load_receipts (toObject (at_key initial ''receipts''))
                             ((new_Room rid sess)
                                \<lparr>initial_state := init, state := st, buffer := buf,
                                 highlight_count := highlights,
                                 notification_count := notifications\<rparr>)))))"

section \<open>The return value of dispatch\<close>

lemma and_then_Inr:
  "and_then r f = Inr (t, g) \<longleftrightarrow> (\<exists>s g1 g2. r = Inr (s, g1) \<and> f s = Inr (t, g2) \<and> g = g1 @ g2)"
  by (auto simp: and_then_def split: sum.splits prod.splits)

text \<open>
  The event types \<open>dispatch\<close> answers \<open>True\<close> for: the five metadata events, and a member
  event whose content is empty or carries a membership that parses.
\<close>

definition handled_state_event :: "Event \<Rightarrow> bool" where
  "handled_state_event e =
     (type e = ''m.room.aliases'' \<or> type e = ''m.room.canonical_alias'' \<or> type e = ''m.room.name''
      \<or> type e = ''m.room.topic'' \<or> type e = ''m.room.avatar''
      \<or> (type e = ''m.room.member''
          \<and> (content e = [] \<or> parse_membership (toString (at_key (content e) ''membership'')) \<noteq> None)))"

definition lobby :: RoomState where
  "lobby = empty_RoomState\<lparr>name := ''Lobby''\<rparr>"

definition name_event :: "string \<Rightarrow> Event" where
  "name_event n =
     \<lparr>type = ''m.room.name'', sender = ''@a:example.org'', event_id = ''$1'', state_key = [],
      content = [(''name'', JStr n)], prev_content = None\<rparr>"

definition create_event :: Event where
  "create_event =
     \<lparr>type = ''m.room.create'', sender = ''@a:example.org'', event_id = ''$0'', state_key = [],
      content = [(''creator'', JStr ''@a:example.org'')], prev_content = None\<rparr>"

lemma update_membership_result:
  assumes "update_membership nfc user c room s = Inr (b, s', g)"
  shows "b = (c = [] \<or> parse_membership (toString (at_key c ''membership'')) \<noteq> None)"
    and "\<not> b \<Longrightarrow> s' = s \<and> g = []"
  using assms
  by (auto simp: update_membership_def split: if_splits option.splits sum.splits)

text \<open>
  C2, as the claim states it, fails: \<open>dispatch\<close> answers \<open>True\<close> for a \<^verbatim>\<open>m.room.name\<close>
  event that carries the name the room already has, and the snapshot it returns is the one it
  was given.
\<close>

theorem dispatch_true_without_change:
  "dispatch (\<lambda>n. n) (name_event ''Lobby'') None lobby = Inr (True, lobby, [])"
  by (simp add: dispatch_def name_event_def lobby_def empty_RoomState_def at_key_def)

text \<open>
  C2, amended: \<open>dispatch\<close> returns \<open>True\<close> exactly for the handled state events (whether or
  not the content differs from the stored values), and \<open>False\<close> for messages, creation events,
  unknown types and member events with an unrecognised membership; a changed snapshot always
  comes with \<open>True\<close>, so \<open>False\<close> means the snapshot is the one given.
\<close>

theorem dispatch_returns_handled:
  assumes "dispatch nfc e room s = Inr (b, s', g)"
  shows "b = handled_state_event e \<and> (s' \<noteq> s \<longrightarrow> b)"
proof (cases "type e = ''m.room.member''")
  case True
  with assms have u: "update_membership nfc (state_key e) (content e) room s = Inr (b, s', g)"
    by (simp add: dispatch_def)
  from update_membership_result [OF u] True show ?thesis
    by (auto simp: handled_state_event_def)
next
  case False
  with assms show ?thesis
    by (auto simp: dispatch_def handled_state_event_def Let_def split: if_splits)
qed

theorem dispatch_returns_handled_witness:
  "dispatch (\<lambda>n. n) create_event None lobby = Inr (False, lobby, [])
   \<and> \<not> handled_state_event create_event"
proof -
  have d: "dispatch (\<lambda>n. n) create_event None lobby = Inr (False, lobby, [])"
    by (simp add: dispatch_def create_event_def)
  from dispatch_returns_handled [OF d] show ?thesis using d by simp
qed

section \<open>The left notification\<close>

definition is_left :: "signal \<Rightarrow> bool" where
  "is_left x = (case x of sig_left m \<Rightarrow> True | _ \<Rightarrow> False)"

lemma forget_displayname_no_left:
  "forget_displayname nfc i old room s = Inr (s', g) \<Longrightarrow> \<not> list_ex is_left g"
  by (auto simp: forget_displayname_def Let_def is_left_def split: if_splits option.splits sum.splits)

lemma record_displayname_no_left:
  "record_displayname nfc i nm room s = Inr (s', g) \<Longrightarrow> \<not> list_ex is_left g"
  by (auto simp: record_displayname_def Let_def is_left_def split: if_splits option.splits sum.splits)

text \<open>The membership \<open>update_membership\<close> reads from a content, when it is Leave or Ban.\<close>

definition leave_or_ban :: "QJsonObject \<Rightarrow> Membership option" where
  "leave_or_ban c =
     (case (if c = [] then Some LEAVE else parse_membership (toString (at_key c ''membership''))) of
        Some LEAVE \<Rightarrow> Some LEAVE
      | Some BAN \<Rightarrow> Some BAN
      | _ \<Rightarrow> None)"

definition own_user_room :: RoomState where
  "own_user_room =
     empty_RoomState\<lparr>members_by_id :=
       [''@me:example.org'' \<mapsto> \<lparr>member_id = ''@me:example.org'', display_name = [],
                                  avatar_url = [], membership = JOIN\<rparr>]\<rparr>"

text \<open>
  C3: with callbacks attached, a Leave or Ban should emit \<open>left\<close> exactly when the departing
  user is the client's own user. The code compares the departing user with \<^verbatim>\<open>room->id()\<close>,
  the id of the room, and never consults the session's user: \<open>left\<close> is emitted exactly when the
  state key equals the room id.
\<close>

theorem left_follows_room_id:
  assumes "leave_or_ban c = Some mship"
    and "update_membership nfc user c (Some rid) s = Inr (b, s', g)"
  shows "list_ex is_left g \<longleftrightarrow> user = rid"
proof -
  from assms have run: "update_membership_leave nfc user c mship (Some rid) s = Inr (s', g)"
    by (auto simp: update_membership_def leave_or_ban_def
        split: if_splits option.splits sum.splits Membership.splits)
  then show ?thesis
    by (auto simp: update_membership_leave_def and_then_Inr Let_def is_left_def
      split: if_splits option.splits
      dest: forget_displayname_no_left record_displayname_no_left)
qed

text \<open>
  The own user \<^verbatim>\<open>@me:example.org\<close>, a member of the room \<^verbatim>\<open>!room:example.org\<close>, leaves: no
  \<open>left\<close> is emitted.
\<close>

theorem left_follows_room_id_witness:
  "leave_or_ban [(''membership'', JStr ''leave'')] = Some LEAVE
   \<and> (\<exists>s' g. update_membership (\<lambda>n. n) ''@me:example.org'' [(''membership'', JStr ''leave'')]
              (Some ''!room:example.org'') own_user_room = Inr (True, s', g)
            \<and> \<not> list_ex is_left g)"
proof -
  have l: "leave_or_ban [(''membership'', JStr ''leave'')] = Some LEAVE"
    by (simp add: leave_or_ban_def parse_membership_def at_key_def)
  obtain s' g where r: "update_membership (\<lambda>n. n) ''@me:example.org'' [(''membership'', JStr ''leave'')]
              (Some ''!room:example.org'') own_user_room = Inr (True, s', g)"
    by (simp add: update_membership_def update_membership_leave_def and_then_def
        parse_membership_def at_key_def own_user_room_def empty_RoomState_def
        Member_update_membership_def Let_def)
  from left_follows_room_id [OF l r] have "\<not> list_ex is_left g" by simp
  with l r show ?thesis by blast
qed

section \<open>The name index invariant\<close>

text \<open>
  The invariant of the name index, as the spec words it: for every normalised name \<open>n\<close> the
  bucket of \<open>n\<close> is exactly the set of ids whose stored member is displayable and carries a
  display name normalising to \<open>n\<close> (\<open>holders\<close>), no id is listed twice, and no bucket is
  empty. A display name is optional and the code encodes an absent one as the empty string, so
  a member with an empty display name carries no name.
\<close>

definition bucket_of :: "(string \<rightharpoonup> string list) \<Rightarrow> string \<Rightarrow> string list" where
  "bucket_of idx n = (case idx n of None \<Rightarrow> [] | Some vec \<Rightarrow> vec)"

definition holders :: "(string \<Rightarrow> string) \<Rightarrow> RoomState \<Rightarrow> string \<Rightarrow> string set" where
  "holders nfc s n =
     {u. \<exists>m. members_by_id s u = Some m \<and> display_name m \<noteq> [] \<and> nfc (display_name m) = n
             \<and> membership_displayable (membership m)}"

definition name_index_consistent :: "(string \<Rightarrow> string) \<Rightarrow> RoomState \<Rightarrow> bool" where
  "name_index_consistent nfc s =
     (\<forall>n. set (bucket_of (members_by_displayname s) n) = holders nfc s n
          \<and> distinct (bucket_of (members_by_displayname s) n)
          \<and> members_by_displayname s n \<noteq> Some [])"

text \<open>
  What holds of the member map between ingestion steps: a member is stored under its own id,
  every stored member is displayable, and no deletion is pending.
\<close>

definition members_well_formed :: "RoomState \<Rightarrow> bool" where
  "members_well_formed s =
     ((\<forall>u m. members_by_id s u = Some m \<longrightarrow> member_id m = u \<and> membership_displayable (membership m))
      \<and> departed s = [])"

definition room_state_ok :: "(string \<Rightarrow> string) \<Rightarrow> RoomState \<Rightarrow> bool" where
  "room_state_ok nfc s = (name_index_consistent nfc s \<and> members_well_formed s)"

text \<open>
  Inside \<open>update_membership\<close> the index lags behind the member map. \<open>index_matches\<close>
  relates the index to an explicit naming of the ids, \<open>names_of\<close> is the naming the member
  map gives.
\<close>

definition index_matches ::
  "(string \<Rightarrow> string) \<Rightarrow> (string \<Rightarrow> string) \<Rightarrow> (string \<rightharpoonup> string list) \<Rightarrow> bool" where
  "index_matches nfc names idx =
     (\<forall>n. set (bucket_of idx n) = {u. names u \<noteq> [] \<and> nfc (names u) = n}
          \<and> distinct (bucket_of idx n) \<and> idx n \<noteq> Some [])"

definition names_of :: "RoomState \<Rightarrow> string \<Rightarrow> string" where
  "names_of s u = (case members_by_id s u of None \<Rightarrow> [] | Some m \<Rightarrow> display_name m)"

lemma index_matches_forget:
  assumes "index_matches nfc names idx" and "names i \<noteq> []" and "idx (nfc (names i)) = Some vec"
  shows "i \<in> set vec" and "distinct vec"
    and "index_matches nfc (names(i := []))
           (idx(nfc (names i) := (if removeAll i vec = [] then None else Some (removeAll i vec))))"
proof -
  from assms(1) have b: "\<And>n. set (bucket_of idx n) = {u. names u \<noteq> [] \<and> nfc (names u) = n}"
    and d: "\<And>n. distinct (bucket_of idx n)" and ne: "\<And>n. idx n \<noteq> Some []"
    by (auto simp: index_matches_def)
  from assms(3) have v: "bucket_of idx (nfc (names i)) = vec" by (simp add: bucket_of_def)
  from b [of "nfc (names i)"] v assms(2) show "i \<in> set vec" by auto
  from d [of "nfc (names i)"] v show "distinct vec" by simp
  show "index_matches nfc (names(i := []))
           (idx(nfc (names i) := (if removeAll i vec = [] then None else Some (removeAll i vec))))"
    unfolding index_matches_def
  proof (intro allI conjI)
    fix n
    show "set (bucket_of (idx(nfc (names i) := if removeAll i vec = [] then None else Some (removeAll i vec))) n)
        = {u. (names(i := [])) u \<noteq> [] \<and> nfc ((names(i := [])) u) = n}"
    proof (cases "n = nfc (names i)")
      case True
      have sv: "set vec = {u. names u \<noteq> [] \<and> nfc (names u) = nfc (names i)}"
        using b [of "nfc (names i)"] v by simp
      have "set (bucket_of (idx(nfc (names i) := if removeAll i vec = [] then None else Some (removeAll i vec))) n)
          = set (removeAll i vec)"
        using True by (cases "removeAll i vec = []") (simp_all add: bucket_of_def)
      also have "\<dots> = set vec - {i}" by simp
      finally show ?thesis using sv True by auto
    next
      case False
      then show ?thesis using b [of n] by (auto simp: bucket_of_def)
    qed
    show "distinct (bucket_of (idx(nfc (names i) := if removeAll i vec = [] then None else Some (removeAll i vec))) n)"
      using d [of n] \<open>distinct vec\<close> by (auto simp: bucket_of_def distinct_removeAll)
    show "(idx(nfc (names i) := if removeAll i vec = [] then None else Some (removeAll i vec))) n \<noteq> Some []"
      using ne [of n] by auto
  qed
qed

lemma index_matches_record:
  assumes "index_matches nfc names idx" and "names i = []" and "nm \<noteq> []"
  shows "i \<notin> set (bucket_of idx (nfc nm))"
    and "index_matches nfc (names(i := nm)) (idx(nfc nm \<mapsto> bucket_of idx (nfc nm) @ [i]))"
proof -
  from assms(1) have b: "\<And>n. set (bucket_of idx n) = {u. names u \<noteq> [] \<and> nfc (names u) = n}"
    and d: "\<And>n. distinct (bucket_of idx n)" and ne: "\<And>n. idx n \<noteq> Some []"
    by (auto simp: index_matches_def)
  from b [of "nfc nm"] assms(2) show ni: "i \<notin> set (bucket_of idx (nfc nm))" by auto
  show "index_matches nfc (names(i := nm)) (idx(nfc nm \<mapsto> bucket_of idx (nfc nm) @ [i]))"
    unfolding index_matches_def
  proof (intro allI conjI)
    fix n
    show "set (bucket_of (idx(nfc nm \<mapsto> bucket_of idx (nfc nm) @ [i])) n)
        = {u. (names(i := nm)) u \<noteq> [] \<and> nfc ((names(i := nm)) u) = n}"
      using b [of n] assms(2,3) by (auto simp: bucket_of_def)
    show "distinct (bucket_of (idx(nfc nm \<mapsto> bucket_of idx (nfc nm) @ [i])) n)"
      using d [of n] ni by (auto simp: bucket_of_def)
    show "(idx(nfc nm \<mapsto> bucket_of idx (nfc nm) @ [i])) n \<noteq> Some []"
      using ne [of n] by auto
  qed
qed


lemma forget_displayname_state:
  assumes "forget_displayname nfc i old room s = Inr (s', g)"
  shows "old = [] \<Longrightarrow> s' = s"
    and "old \<noteq> [] \<Longrightarrow> \<exists>vec. members_by_displayname s (nfc old) = Some vec
           \<and> s' = s\<lparr>members_by_displayname := (members_by_displayname s)
                  (nfc old := (if removeAll i vec = [] then None else Some (removeAll i vec)))\<rparr>"
  using assms
  by (auto simp: forget_displayname_def Let_def split: if_splits option.splits sum.splits)

lemma record_displayname_state:
  assumes "record_displayname nfc i nm room s = Inr (s', g)"
  shows "nm = [] \<Longrightarrow> s' = s"
    and "nm \<noteq> [] \<Longrightarrow> s' = s\<lparr>members_by_displayname := (members_by_displayname s)
                  (nfc nm \<mapsto> bucket_of (members_by_displayname s) (nfc nm) @ [i])\<rparr>"
  using assms
  by (auto simp: record_displayname_def Let_def bucket_of_def split: if_splits option.splits sum.splits)

lemma forget_indexed:
  assumes "index_matches nfc names (members_by_displayname s)" and "names i = old"
    and "forget_displayname nfc i old room s = Inr (s', g)"
  shows "index_matches nfc (names(i := [])) (members_by_displayname s')
         \<and> members_by_id s' = members_by_id s \<and> departed s' = departed s"
proof (cases "old = []")
  case True
  with forget_displayname_state(1) [OF assms(3)] have "s' = s" by simp
  moreover from True assms(2) have "names(i := []) = names" by auto
  ultimately show ?thesis using assms(1) by simp
next
  case False
  from forget_displayname_state(2) [OF assms(3) False] obtain vec
    where v: "members_by_displayname s (nfc old) = Some vec"
      and s': "s' = s\<lparr>members_by_displayname := (members_by_displayname s)
                  (nfc old := (if removeAll i vec = [] then None else Some (removeAll i vec)))\<rparr>"
    by blast
  from index_matches_forget(3) [OF assms(1), of i vec] False assms(2) v s'
  show ?thesis by simp
qed

lemma record_indexed:
  assumes "index_matches nfc names (members_by_displayname s)" and "names i = []"
    and "record_displayname nfc i nm room s = Inr (s', g)"
  shows "index_matches nfc (names(i := nm)) (members_by_displayname s')
         \<and> members_by_id s' = members_by_id s \<and> departed s' = departed s"
proof (cases "nm = []")
  case True
  with record_displayname_state(1) [OF assms(3)] have "s' = s" by simp
  moreover from True assms(2) have "names(i := nm) = names" by auto
  ultimately show ?thesis using assms(1) by simp
next
  case False
  from record_displayname_state(2) [OF assms(3) False] index_matches_record(2) [OF assms(1,2) False]
  show ?thesis by simp
qed

lemma rename_indexed:
  assumes "index_matches nfc names (members_by_displayname s)" and "names i = old"
    and "and_then (forget_displayname nfc i old room s) (record_displayname nfc i new room) = Inr (s', g)"
  shows "index_matches nfc (names(i := new)) (members_by_displayname s')
         \<and> members_by_id s' = members_by_id s \<and> departed s' = departed s"
proof -
  from assms(3) obtain s1 g1 g2 where f: "forget_displayname nfc i old room s = Inr (s1, g1)"
    and r: "record_displayname nfc i new room s1 = Inr (s', g2)"
    by (auto simp: and_then_Inr)
  from forget_indexed [OF assms(1,2) f]
  have 1: "index_matches nfc (names(i := [])) (members_by_displayname s1)"
    and m1: "members_by_id s1 = members_by_id s" and d1: "departed s1 = departed s" by simp_all
  from record_indexed [OF 1 _ r] m1 d1 show ?thesis by simp
qed


text \<open>
  The state between a Leave or Ban and its \<open>prune_departed\<close>: the departed member is still
  stored and still indexed, and it alone may be undisplayable.
\<close>

definition pending_ok :: "(string \<Rightarrow> string) \<Rightarrow> RoomState \<Rightarrow> bool" where
  "pending_ok nfc s =
     (index_matches nfc (names_of s) (members_by_displayname s)
      \<and> (\<forall>u m. members_by_id s u = Some m \<longrightarrow>
             member_id m = u \<and> (u \<noteq> departed s \<longrightarrow> membership_displayable (membership m)))
      \<and> members_by_id s (departed s) \<noteq> None)"

lemma holders_names_of:
  assumes "\<forall>u m. members_by_id s u = Some m \<longrightarrow> membership_displayable (membership m)"
  shows "holders nfc s n = {u. names_of s u \<noteq> [] \<and> nfc (names_of s u) = n}"
  using assms by (auto simp: holders_def names_of_def split: option.splits)

lemma room_state_ok_iff:
  "room_state_ok nfc s \<longleftrightarrow>
     index_matches nfc (names_of s) (members_by_displayname s) \<and> members_well_formed s"
proof (cases "members_well_formed s")
  case True
  then have "\<forall>u m. members_by_id s u = Some m \<longrightarrow> membership_displayable (membership m)"
    by (simp add: members_well_formed_def)
  from holders_names_of [OF this] True show ?thesis
    by (simp add: room_state_ok_def name_index_consistent_def index_matches_def)
next
  case False
  then show ?thesis by (simp add: room_state_ok_def)
qed

lemma member_id_update [simp]: "member_id (Member_update_membership c m) = member_id m"
  by (simp add: Member_update_membership_def)

lemma membership_update:
  "parse_membership (toString (at_key c ''membership'')) = Some x
   \<Longrightarrow> membership (Member_update_membership c m) = x"
  by (simp add: Member_update_membership_def)

lemma names_of_upd:
  "names_of (s\<lparr>members_by_id := (members_by_id s)(u \<mapsto> m)\<rparr>) = (names_of s)(u := display_name m)"
  by (auto simp: names_of_def fun_eq_iff)

lemma update_membership_join_ok:
  assumes ok: "room_state_ok nfc s"
    and p: "parse_membership (toString (at_key c ''membership'')) = Some mship"
    and disp: "membership_displayable mship"
    and run: "update_membership_join nfc user c mship room s = Inr (s', g)"
  shows "room_state_ok nfc s'"
proof -
  define member0 where "member0 = (case members_by_id s user of None \<Rightarrow> Member_of_id user | Some m \<Rightarrow> m)"
  define member where "member = Member_update_membership c member0"
  define s1 where "s1 = s\<lparr>members_by_id := (members_by_id s)(user \<mapsto> member)\<rparr>"
  from ok have im: "index_matches nfc (names_of s) (members_by_displayname s)"
    and wf: "members_well_formed s" by (simp_all add: room_state_ok_iff)
  have id0: "member_id member0 = user"
    using wf by (auto simp: member0_def Member_of_id_def members_well_formed_def split: option.splits)
  have old: "names_of s user = display_name member0"
    by (simp add: names_of_def member0_def Member_of_id_def split: option.splits)
  have im1: "index_matches nfc (names_of s) (members_by_displayname s1)"
    using im by (simp add: s1_def)
  have n1: "names_of s1 = (names_of s)(user := display_name member)"
    by (simp add: s1_def names_of_upd)
  have wf1: "members_well_formed s1"
    using wf id0 disp membership_update [OF p, of member0]
    by (auto simp: members_well_formed_def s1_def member_def)
  have idm: "member_id member = user" by (simp add: member_def id0)
  from run have "\<exists>g'. (if display_name member \<noteq> display_name member0
            then and_then (forget_displayname nfc user (display_name member0) room s1)
                   (record_displayname nfc user (display_name member) room)
            else Inr (s1, [])) = Inr (s', g')"
    by (auto simp: update_membership_join_def Let_def and_then_Inr idm
          member0_def [symmetric] member_def [symmetric] s1_def [symmetric]
        split: sum.splits if_splits)
  then obtain g' where r: "(if display_name member \<noteq> display_name member0
            then and_then (forget_displayname nfc user (display_name member0) room s1)
                   (record_displayname nfc user (display_name member) room)
            else Inr (s1, [])) = Inr (s', g')" ..
  show ?thesis
  proof (cases "display_name member \<noteq> display_name member0")
    case True
    with r have "and_then (forget_displayname nfc user (display_name member0) room s1)
                   (record_displayname nfc user (display_name member) room) = Inr (s', g')" by simp
    from rename_indexed [OF im1 old this]
    have i': "index_matches nfc ((names_of s)(user := display_name member)) (members_by_displayname s')"
      and m': "members_by_id s' = members_by_id s1" and d': "departed s' = departed s1" by simp_all
    from m' have "names_of s' = names_of s1" by (simp add: names_of_def fun_eq_iff)
    with i' n1 m' d' wf1 show ?thesis
      by (simp add: room_state_ok_iff members_well_formed_def)
  next
    case False
    with r have "s' = s1" by simp
    moreover from False n1 old have "names_of s1 = names_of s" by auto
    ultimately show ?thesis using im1 wf1 by (simp add: room_state_ok_iff)
  qed
qed


lemma names_of_same: "members_by_id s' = members_by_id s \<Longrightarrow> names_of s' = names_of s"
  by (simp add: names_of_def fun_eq_iff)

lemma update_membership_leave_ok:
  assumes ok: "room_state_ok nfc s"
    and run: "update_membership_leave nfc user c mship room s = Inr (s', g)"
  shows "s' = s \<or> (pending_ok nfc s' \<and> departed s' = user)"
proof (cases "members_by_id s user")
  case None
  with run show ?thesis by (auto simp: update_membership_leave_def and_then_Inr)
next
  case (Some member0)
  define member where "member = Member_update_membership c member0"
  define s1 where "s1 = s\<lparr>members_by_id := (members_by_id s)(user \<mapsto> member)\<rparr>"
  from ok have im: "index_matches nfc (names_of s) (members_by_displayname s)"
    and wf: "members_well_formed s" by (simp_all add: room_state_ok_iff)
  from wf Some have id0: "member_id member0 = user" by (simp add: members_well_formed_def)
  have idm: "member_id member = user" by (simp add: member_def id0)
  have old: "names_of s user = display_name member0" using Some by (simp add: names_of_def)
  have im1: "index_matches nfc (names_of s) (members_by_displayname s1)"
    using im by (simp add: s1_def)
  have n1: "names_of s1 = (names_of s)(user := display_name member)"
    by (simp add: s1_def names_of_upd)
  have d1: "departed s1 = []" using wf by (simp add: s1_def members_well_formed_def)
  from run Some obtain s2 g' where r: "(if display_name member \<noteq> display_name member0
            then and_then (forget_displayname nfc user (display_name member0) room s1)
                   (record_displayname nfc user (display_name member) room)
            else Inr (s1, [])) = Inr (s2, g')"
    and s': "s' = s2\<lparr>departed := user\<rparr>"
    by (auto simp: update_membership_leave_def Let_def and_then_Inr idm
          member_def [symmetric] s1_def [symmetric]
        split: if_splits)
  have "index_matches nfc (names_of s1) (members_by_displayname s2)
        \<and> members_by_id s2 = members_by_id s1"
  proof (cases "display_name member \<noteq> display_name member0")
    case True
    with r have "and_then (forget_displayname nfc user (display_name member0) room s1)
                   (record_displayname nfc user (display_name member) room) = Inr (s2, g')" by simp
    from rename_indexed [OF im1 old this] n1 show ?thesis by simp
  next
    case False
    with r have "s2 = s1" by simp
    moreover from False n1 old have "names_of s1 = names_of s" by auto
    ultimately show ?thesis using im1 by simp
  qed
  then have i2: "index_matches nfc (names_of s1) (members_by_displayname s2)"
    and m2: "members_by_id s2 = members_by_id s1" by simp_all
  have "names_of s' = names_of s1" using m2 s' by (simp add: names_of_def fun_eq_iff)
  moreover have "\<forall>u m. members_by_id s' u = Some m \<longrightarrow>
             member_id m = u \<and> (u \<noteq> departed s' \<longrightarrow> membership_displayable (membership m))"
    using wf idm m2 s' by (auto simp: members_well_formed_def s1_def)
  moreover have "members_by_id s' (departed s') \<noteq> None" using m2 s' by (simp add: s1_def)
  ultimately have "pending_ok nfc s'" using i2 s' by (simp add: pending_ok_def)
  with s' show ?thesis by simp
qed

lemma prune_departed_idle: "departed s = [] \<Longrightarrow> prune_departed nfc room s = Inr (s, [])"
  by (simp add: prune_departed_def)

lemma prune_departed_ok:
  assumes p: "pending_ok nfc s" and d: "departed s \<noteq> []"
    and run: "prune_departed nfc room s = Inr (s', g)"
  shows "room_state_ok nfc s'"
proof -
  from p obtain m where m: "members_by_id s (departed s) = Some m"
    by (auto simp: pending_ok_def)
  from p have im: "index_matches nfc (names_of s) (members_by_displayname s)"
    and ids: "\<forall>u m. members_by_id s u = Some m \<longrightarrow>
             member_id m = u \<and> (u \<noteq> departed s \<longrightarrow> membership_displayable (membership m))"
    by (simp_all add: pending_ok_def)
  from run d m obtain s1 g1 where f: "forget_displayname nfc (departed s) (display_name m) room s = Inr (s1, g1)"
    and s': "s' = s1\<lparr>members_by_id := (members_by_id s1)(departed s := None), departed := []\<rparr>"
    by (auto simp: prune_departed_def and_then_Inr)
  have "names_of s (departed s) = display_name m" using m by (simp add: names_of_def)
  from forget_indexed [OF im this f]
  have i1: "index_matches nfc ((names_of s)(departed s := [])) (members_by_displayname s1)"
    and m1: "members_by_id s1 = members_by_id s" by simp_all
  have "names_of s' = (names_of s)(departed s := [])"
    using s' m1 by (auto simp: names_of_def fun_eq_iff)
  moreover have "members_well_formed s'"
    using ids s' m1 by (auto simp: members_well_formed_def)
  ultimately show ?thesis using i1 s' by (simp add: room_state_ok_iff)
qed

lemma room_state_ok_fields:
  assumes "members_by_id s' = members_by_id s"
    and "members_by_displayname s' = members_by_displayname s"
    and "departed s' = departed s"
  shows "room_state_ok nfc s' = room_state_ok nfc s"
  using assms
  by (simp add: room_state_ok_def name_index_consistent_def members_well_formed_def holders_def)

lemma dispatch_and_prune_ok:
  assumes ok: "room_state_ok nfc s"
    and key: "type e = ''m.room.member'' \<longrightarrow> state_key e \<noteq> []"
    and run: "dispatch_and_prune nfc e room prune_room s = Inr (b, s', g)"
  shows "room_state_ok nfc s'"
proof -
  from run obtain s1 g1 g2 where d: "dispatch nfc e room s = Inr (b, s1, g1)"
    and p: "prune_departed nfc prune_room s1 = Inr (s', g2)"
    by (auto simp: dispatch_and_prune_def split: sum.splits prod.splits)
  from ok have dep: "departed s = []" by (simp add: room_state_ok_def members_well_formed_def)
  show ?thesis
  proof (cases "type e = ''m.room.member''")
    case False
    with d have "members_by_id s1 = members_by_id s
        \<and> members_by_displayname s1 = members_by_displayname s \<and> departed s1 = departed s"
      by (auto simp: dispatch_def Let_def split: if_splits)
    with room_state_ok_fields [of s1 s nfc] ok dep have "room_state_ok nfc s1" and "departed s1 = []"
      by simp_all
    with p prune_departed_idle [of s1 nfc prune_room] show ?thesis by simp
  next
    case True
    with d have u: "update_membership nfc (state_key e) (content e) room s = Inr (b, s1, g1)"
      by (simp add: dispatch_def)
    from True key have k: "state_key e \<noteq> []" by simp
    consider (none) "s1 = s"
      | (join) mship where "parse_membership (toString (at_key (content e) ''membership'')) = Some mship"
          "membership_displayable mship"
          "update_membership_join nfc (state_key e) (content e) mship room s = Inr (s1, g1)"
      | (leave) mship where "update_membership_leave nfc (state_key e) (content e) mship room s = Inr (s1, g1)"
      using u
      by (auto simp: update_membership_def membership_displayable_def
          split: if_splits option.splits sum.splits Membership.splits)
    then show ?thesis
    proof cases
      case none
      with ok dep p prune_departed_idle [of s nfc prune_room] show ?thesis by simp
    next
      case join
      from update_membership_join_ok [OF ok join] have ok1: "room_state_ok nfc s1" .
      then have "departed s1 = []" by (simp add: room_state_ok_def members_well_formed_def)
      with ok1 p prune_departed_idle [of s1 nfc prune_room] show ?thesis by simp
    next
      case leave
      from update_membership_leave_ok [OF ok leave]
      show ?thesis
      proof
        assume "s1 = s"
        with ok dep p prune_departed_idle [of s nfc prune_room] show ?thesis by simp
      next
        assume "pending_ok nfc s1 \<and> departed s1 = state_key e"
        with k prune_departed_ok [OF _ _ p] show ?thesis by simp
      qed
    qed
  qed
qed

text \<open>Member events name a user: their state key is not empty.\<close>

definition member_keys_nonempty :: "Event list \<Rightarrow> bool" where
  "member_keys_nonempty es =
     list_all (\<lambda>e. type e \<noteq> ''m.room.member'' \<or> state_key e \<noteq> []) es"

definition member_event :: "string \<Rightarrow> string \<Rightarrow> string \<Rightarrow> Event" where
  "member_event user mship nm =
     \<lparr>type = ''m.room.member'', sender = user, event_id = ''$m'', state_key = user,
      content = [(''membership'', JStr mship), (''displayname'', JStr nm)], prev_content = None\<rparr>"

text \<open>
  The state the code reaches from the empty one after a user with the empty id joins as Bob and
  leaves again: \<open>departed\<close> is set to the empty id, which \<open>prune_departed\<close> reads as "nobody
  departed", so the member stays stored, with membership Leave, and stays in the bucket of Bob.
\<close>

definition stuck_state :: RoomState where
  "stuck_state = empty_RoomState
     \<lparr>members_by_id :=
        [[] \<mapsto> \<lparr>member_id = [], display_name = ''Bob'', avatar_url = [], membership = LEAVE\<rparr>],
      members_by_displayname := [''Bob'' \<mapsto> [[]]]\<rparr>"

lemma room_state_ok_empty: "room_state_ok nfc empty_RoomState"
  by (simp add: room_state_ok_def name_index_consistent_def members_well_formed_def
      holders_def bucket_of_def empty_RoomState_def)

lemmas state_eval = ingest.simps dispatch_and_prune_def dispatch_def update_membership_def
  update_membership_join_def update_membership_leave_def prune_departed_def and_then_def
  forget_displayname_def record_displayname_def forget_other_member_def record_other_member_def
  member_name_def member_disambiguation_def members_named_def member_from_id_def
  Member_update_membership_def Member_of_id_def parse_membership_def at_key_def
  empty_RoomState_def pretty_name_of_def membership_displayable_def Let_def

lemma stuck_state_inconsistent: "\<not> name_index_consistent (\<lambda>n. n) stuck_state"
proof
  assume "name_index_consistent (\<lambda>n. n) stuck_state"
  then have "set (bucket_of (members_by_displayname stuck_state) ''Bob'')
             = holders (\<lambda>n. n) stuck_state ''Bob''"
    by (simp add: name_index_consistent_def)
  then show False
    by (auto simp: stuck_state_def bucket_of_def holders_def empty_RoomState_def
        membership_displayable_def split: if_splits)
qed

text \<open>
  What the code does keep, for the runs that end: starting from a state in which the index is
  consistent, members are stored under their own ids and are displayable, and nothing is
  pending, every run of dispatches, each followed by its \<open>prune_departed\<close>, of events whose
  member events carry a non-empty state key, ends, when no call is aborted by an exception or
  a failed assertion, in a state with the same properties.
\<close>

lemma name_index_preserved:
  assumes "room_state_ok nfc s"
    and "member_keys_nonempty es"
    and "ingest nfc es room prune_room s = Inr (b, s', g)"
  shows "name_index_consistent nfc s' \<and> room_state_ok nfc s'"
proof -
  from assms have "room_state_ok nfc s'"
  proof (induction es arbitrary: s b g)
    case Nil
    then show ?case by simp
  next
    case (Cons e es)
    from Cons.prems(3) obtain b1 s1 g1 b2 g2
      where 1: "dispatch_and_prune nfc e room prune_room s = Inr (b1, s1, g1)"
        and 2: "ingest nfc es room prune_room s1 = Inr (b2, s', g2)"
      by (auto split: sum.splits prod.splits)
    from Cons.prems(2) have k: "type e = ''m.room.member'' \<longrightarrow> state_key e \<noteq> []"
      and ks: "member_keys_nonempty es"
      by (auto simp: member_keys_nonempty_def)
    from dispatch_and_prune_ok [OF Cons.prems(1) k 1] have "room_state_ok nfc s1" .
    from Cons.IH [OF this ks 2] show ?case .
  qed
  then show ?thesis by (simp add: room_state_ok_def)
qed

text \<open>
  A member event whose state key is the empty string breaks the index without any call being
  aborted: \<open>departed\<close> uses the empty string for "nobody departed", so after a Join and a
  Leave of the empty id the Leave member stays in the bucket of its name.
\<close>

lemma name_index_broken_by_empty_id:
  "ingest (\<lambda>n. n) [member_event [] ''join'' ''Bob'', member_event [] ''leave'' ''Bob'']
      None None empty_RoomState = Inr (True, stuck_state, [])
   \<and> \<not> name_index_consistent (\<lambda>n. n) stuck_state"
  using stuck_state_inconsistent by (simp add: state_eval member_event_def stuck_state_def)

text \<open>
  A room whose one member, Alice, carries her own id as display name, and the same room
  in the middle of \<open>update_membership\<close> for her new name Alice: her record is updated, the
  index is not yet.
\<close>

definition self_named_room :: RoomState where
  "self_named_room = empty_RoomState
     \<lparr>members_by_id :=
        [''@a:x'' \<mapsto> \<lparr>member_id = ''@a:x'', display_name = ''@a:x'', avatar_url = [], membership = JOIN\<rparr>],
      members_by_displayname := [''@a:x'' \<mapsto> [''@a:x'']]\<rparr>"

definition half_renamed_room :: RoomState where
  "half_renamed_room = empty_RoomState
     \<lparr>members_by_id :=
        [''@a:x'' \<mapsto> \<lparr>member_id = ''@a:x'', display_name = ''Alice'', avatar_url = [], membership = JOIN\<rparr>],
      members_by_displayname := [''@a:x'' \<mapsto> [''@a:x'']]\<rparr>"

lemma self_named_room_ok: "room_state_ok (\<lambda>n. n) self_named_room"
  by (auto simp: room_state_ok_def name_index_consistent_def members_well_formed_def
      self_named_room_def bucket_of_def holders_def empty_RoomState_def
      membership_displayable_def split: if_splits)

lemma half_renamed_room_inconsistent: "\<not> name_index_consistent (\<lambda>n. n) half_renamed_room"
proof
  assume "name_index_consistent (\<lambda>n. n) half_renamed_room"
  then have "set (bucket_of (members_by_displayname half_renamed_room) ''@a:x'')
             = holders (\<lambda>n. n) half_renamed_room ''@a:x''"
    by (simp add: name_index_consistent_def)
  then show False
    by (auto simp: half_renamed_room_def bucket_of_def holders_def empty_RoomState_def
        membership_displayable_def split: if_splits)
qed

text \<open>
  C1: the claim is what the index is for, and the code departs from it on a valid input.
  In \<open>self_named_room\<close> the index is consistent. The event that renames Alice, dispatched
  with the room's callbacks attached, does not complete: \<open>update_membership\<close> updates her
  record and calls \<open>forget_displayname\<close> for the old name; that name being her own id,
  \<open>forget_displayname\<close> takes her as the member to notify and asks for the disambiguation of
  her record, which looks the new name up with \<^verbatim>\<open>at\<close> before any bucket of that name
  exists. The exception leaves the snapshot as \<open>half_renamed_room\<close>: Alice is stored as Alice
  and listed under her old name.
\<close>

theorem name_index_lost_by_self_named_rename:
  "room_state_ok (\<lambda>n. n) self_named_room
   \<and> dispatch (\<lambda>n. n) (member_event ''@a:x'' ''join'' ''Alice'') (Some ''!r:x'') self_named_room
       = Inl OutOfRange
   \<and> map_option (\<lambda>m. self_named_room
          \<lparr>members_by_id := (members_by_id self_named_room)
             (''@a:x'' \<mapsto> Member_update_membership
                               (content (member_event ''@a:x'' ''join'' ''Alice'')) m)\<rparr>)
        (members_by_id self_named_room ''@a:x'')
       = Some half_renamed_room
   \<and> forget_displayname (\<lambda>n. n) ''@a:x'' ''@a:x'' (Some ''!r:x'') half_renamed_room
       = Inl OutOfRange
   \<and> \<not> name_index_consistent (\<lambda>n. n) half_renamed_room"
proof -
  have "dispatch (\<lambda>n. n) (member_event ''@a:x'' ''join'' ''Alice'') (Some ''!r:x'')
          self_named_room = Inl OutOfRange"
    by (simp add: state_eval member_event_def self_named_room_def)
  moreover have "map_option (\<lambda>m. self_named_room
          \<lparr>members_by_id := (members_by_id self_named_room)
             (''@a:x'' \<mapsto> Member_update_membership
                               (content (member_event ''@a:x'' ''join'' ''Alice'')) m)\<rparr>)
        (members_by_id self_named_room ''@a:x'')
       = Some half_renamed_room"
    by (simp add: self_named_room_def half_renamed_room_def member_event_def
        Member_update_membership_def parse_membership_def at_key_def empty_RoomState_def)
  moreover have "forget_displayname (\<lambda>n. n) ''@a:x'' ''@a:x'' (Some ''!r:x'') half_renamed_room
       = Inl OutOfRange"
    by (simp add: state_eval half_renamed_room_def)
  ultimately show ?thesis
    using self_named_room_ok half_renamed_room_inconsistent by simp
qed

text \<open>
  Without callbacks the same event is applied in full, and the index follows.
\<close>

lemma self_named_rename_without_callbacks:
  "\<exists>s'. dispatch (\<lambda>n. n) (member_event ''@a:x'' ''join'' ''Alice'') None self_named_room
           = Inr (True, s', [])
        \<and> members_by_displayname s' ''Alice'' = Some [''@a:x'']
        \<and> members_by_displayname s' ''@a:x'' = None"
  by (simp add: state_eval member_event_def self_named_room_def)

section \<open>The checked lookup of member_disambiguation\<close>

definition sam_room :: RoomState where
  "sam_room = empty_RoomState
     \<lparr>members_by_id :=
        [''@a:x'' \<mapsto> \<lparr>member_id = ''@a:x'', display_name = ''Sam'', avatar_url = [], membership = JOIN\<rparr>],
      members_by_displayname := [''Sam'' \<mapsto> [''@a:x'']]\<rparr>"

lemma sam_room_consistent: "name_index_consistent (\<lambda>n. n) sam_room"
  by (auto simp: name_index_consistent_def sam_room_def bucket_of_def holders_def
      empty_RoomState_def membership_displayable_def split: if_splits)

text \<open>
  C10: for a member with a non-empty display name, \<open>member_disambiguation\<close> looks the
  normalised name up with \<^verbatim>\<open>at\<close>: it fails (with \<open>OutOfRange\<close>) exactly when the index has
  no bucket for that name, and returns a string exactly when it has one. Under the name-index
  invariant the lookup succeeds for every displayable member stored in \<open>members_by_id\<close>.
\<close>

theorem member_disambiguation_lookup:
  "(display_name m \<noteq> [] \<longrightarrow>
      (member_disambiguation nfc s m = Inl OutOfRange
         \<longleftrightarrow> members_by_displayname s (nfc (display_name m)) = None)
      \<and> ((\<exists>d. member_disambiguation nfc s m = Inr d)
         \<longleftrightarrow> members_by_displayname s (nfc (display_name m)) \<noteq> None))
   \<and> (name_index_consistent nfc s \<and> members_by_id s u = Some m
        \<and> membership_displayable (membership m)
      \<longrightarrow> (\<exists>d. member_disambiguation nfc s m = Inr d))"
proof (intro conjI impI)
  assume "display_name m \<noteq> []"
  then show "member_disambiguation nfc s m = Inl OutOfRange
         \<longleftrightarrow> members_by_displayname s (nfc (display_name m)) = None"
    by (auto simp: member_disambiguation_def members_named_def split: option.splits)
next
  assume "display_name m \<noteq> []"
  then show "(\<exists>d. member_disambiguation nfc s m = Inr d)
         \<longleftrightarrow> members_by_displayname s (nfc (display_name m)) \<noteq> None"
    by (auto simp: member_disambiguation_def members_named_def split: option.splits)
next
  assume a: "name_index_consistent nfc s \<and> members_by_id s u = Some m
        \<and> membership_displayable (membership m)"
  show "\<exists>d. member_disambiguation nfc s m = Inr d"
  proof (cases "display_name m = []")
    case True
    then show ?thesis by (simp add: member_disambiguation_def)
  next
    case False
    with a have "u \<in> holders nfc s (nfc (display_name m))" by (auto simp: holders_def)
    with a have "u \<in> set (bucket_of (members_by_displayname s) (nfc (display_name m)))"
      by (simp add: name_index_consistent_def)
    then have "members_by_displayname s (nfc (display_name m)) \<noteq> None"
      by (cases "members_by_displayname s (nfc (display_name m))") (simp_all add: bucket_of_def)
    with False show ?thesis
      by (auto simp: member_disambiguation_def members_named_def split: option.splits)
  qed
qed

text \<open>
  In a room where Alice is the one Sam, the lookup succeeds for her; for a departed member
  named Max, whose name the index no longer holds, it fails.
\<close>

theorem member_disambiguation_lookup_witness:
  "name_index_consistent (\<lambda>n. n) sam_room
   \<and> members_by_id sam_room ''@a:x''
       = Some \<lparr>member_id = ''@a:x'', display_name = ''Sam'', avatar_url = [], membership = JOIN\<rparr>
   \<and> membership_displayable JOIN
   \<and> (\<exists>d. member_disambiguation (\<lambda>n. n) sam_room
             \<lparr>member_id = ''@a:x'', display_name = ''Sam'', avatar_url = [], membership = JOIN\<rparr> = Inr d)
   \<and> members_by_displayname sam_room ''Max'' = None
   \<and> member_disambiguation (\<lambda>n. n) sam_room
             \<lparr>member_id = ''@m:x'', display_name = ''Max'', avatar_url = [], membership = LEAVE\<rparr>
       = Inl OutOfRange"
proof -
  let ?a = "\<lparr>member_id = ''@a:x'', display_name = ''Sam'', avatar_url = [], membership = JOIN\<rparr>"
  let ?m = "\<lparr>member_id = ''@m:x'', display_name = ''Max'', avatar_url = [], membership = LEAVE\<rparr>"
  have a: "members_by_id sam_room ''@a:x'' = Some ?a"
    by (simp add: sam_room_def empty_RoomState_def)
  have j: "membership_displayable JOIN" by (simp add: membership_displayable_def)
  have n: "members_by_displayname sam_room ''Max'' = None"
    by (simp add: sam_room_def empty_RoomState_def)
  from member_disambiguation_lookup [of ?a "\<lambda>n. n" sam_room "''@a:x''", THEN conjunct2]
    sam_room_consistent a j
  have 1: "\<exists>d. member_disambiguation (\<lambda>n. n) sam_room ?a = Inr d" by simp
  from member_disambiguation_lookup [of ?m "\<lambda>n. n" sam_room "''@m:x''"] n
  have 2: "member_disambiguation (\<lambda>n. n) sam_room ?m = Inl OutOfRange" by simp
  from sam_room_consistent a j n 1 2 show ?thesis by blast
qed

section \<open>Forgetting a display name\<close>








section \<open>Unread messages\<close>









text \<open>
  The scenario of the spec: the own receipt points at E3 in a buffer E1 (own message),
  E2 (other's message), E3 (own message), E4 (other's message).
\<close>

definition message_event :: "string \<Rightarrow> string \<Rightarrow> Event" where
  "message_event i from_user =
     \<lparr>type = ''m.room.message'', sender = from_user, event_id = i, state_key = [],
      content = [(''msgtype'', JStr ''m.text''), (''body'', JStr ''hi'')], prev_content = None\<rparr>"

definition me :: Session where
  "me = \<lparr>user_id = ''@me:x'', buffer_size = 50, next_transaction = 0\<rparr>"



section \<open>Receipts of one sync delta\<close>

text \<open>The signals the state functions can emit.\<close>

definition state_signal :: "signal \<Rightarrow> bool" where
  "state_signal x =
     (case x of
        sig_member_disambiguation_changed m d \<Rightarrow> True
      | sig_member_name_changed m n \<Rightarrow> True
      | sig_membership_changed m ms \<Rightarrow> True
      | sig_left ms \<Rightarrow> True
      | sig_aliases_changed \<Rightarrow> True
      | sig_canonical_alias_changed \<Rightarrow> True
      | sig_name_changed \<Rightarrow> True
      | sig_topic_changed t \<Rightarrow> True
      | sig_avatar_changed \<Rightarrow> True
      | _ \<Rightarrow> False)"

lemma forget_displayname_signals:
  "forget_displayname nfc i old room s = Inr (s', g) \<Longrightarrow> list_all state_signal g"
  by (auto simp: forget_displayname_def Let_def state_signal_def split: if_splits option.splits sum.splits)

lemma record_displayname_signals:
  "record_displayname nfc i nm room s = Inr (s', g) \<Longrightarrow> list_all state_signal g"
  by (auto simp: record_displayname_def Let_def state_signal_def split: if_splits option.splits sum.splits)

lemma update_membership_signals:
  assumes "update_membership nfc user c room s = Inr (b, s', g)"
  shows "list_all state_signal g"
proof -
  have j: "\<And>m. update_membership_join nfc user c m room s = Inr (s', g) \<Longrightarrow> list_all state_signal g"
    by (auto simp: update_membership_join_def and_then_Inr Let_def state_signal_def
        split: if_splits sum.splits
        dest!: forget_displayname_signals record_displayname_signals)
  have l: "\<And>m. update_membership_leave nfc user c m room s = Inr (s', g) \<Longrightarrow> list_all state_signal g"
    by (auto simp: update_membership_leave_def and_then_Inr Let_def state_signal_def
        split: if_splits option.splits
        dest!: forget_displayname_signals record_displayname_signals)
  from assms j l show ?thesis
    by (auto simp: update_membership_def split: if_splits option.splits sum.splits Membership.splits)
qed

lemma dispatch_signals:
  assumes "dispatch nfc e room s = Inr (b, s', g)"
  shows "list_all state_signal g"
proof (cases "type e = ''m.room.member''")
  case True
  with assms update_membership_signals show ?thesis by (simp add: dispatch_def)
next
  case False
  with assms show ?thesis
    by (auto simp: dispatch_def Let_def state_signal_def split: if_splits)
qed

lemma prune_departed_signals:
  "prune_departed nfc room s = Inr (s', g) \<Longrightarrow> list_all state_signal g"
  by (auto simp: prune_departed_def and_then_Inr split: if_splits option.splits
      dest!: forget_displayname_signals)

text \<open>
  The receipt-related part of what \<open>Room_dispatch\<close> leaves behind: the calls of
  \<open>update_receipt\<close> and the emissions of \<open>receipts_changed\<close>. \<open>receipt_block\<close> is what one
  \<^verbatim>\<open>m.receipt\<close> event contributes.
\<close>

definition receipt_action :: "action \<Rightarrow> bool" where
  "receipt_action a =
     (case a of
        Call_update_receipt u e t \<Rightarrow> True
      | Emit x \<Rightarrow> x = sig_receipts_changed
      | _ \<Rightarrow> False)"

definition receipt_events :: "JoinedRoom \<Rightarrow> Event list" where
  "receipt_events joined = filter (\<lambda>e. type e = ''m.receipt'') (ephemeral_events joined)"

definition receipt_block :: "Event \<Rightarrow> action list" where
  "receipt_block evt =
     map (\<lambda>(user, ev, d). Call_update_receipt user ev (nat d)) (receipt_updates evt)
     @ [Emit sig_receipts_changed]"

lemma state_signals_no_receipt:
  "list_all state_signal g \<Longrightarrow> filter receipt_action (map Emit g) = []"
  by (induction g) (auto simp: receipt_action_def state_signal_def)

lemma dispatch_timeline_signals:
  "dispatch_timeline nfc rid evts s = Inr (b, s', g) \<Longrightarrow> filter receipt_action (map Emit g) = []"
proof (induction evts arbitrary: s b g)
  case Nil
  then show ?case by simp
next
  case (Cons evt evts)
  from Cons.prems obtain t1 s1 g1 s2 g2 t3 g3
    where d: "dispatch nfc evt (Some rid) s = Inr (t1, s1, g1)"
      and p: "prune_departed nfc (Some rid) s1 = Inr (s2, g2)"
      and r: "dispatch_timeline nfc rid evts s2 = Inr (t3, s', g3)"
      and g: "g = g1 @ [sig_message evt] @ g2 @ g3"
    by (auto split: sum.splits prod.splits)
  have m: "\<not> receipt_action (Emit (sig_message evt))" by (simp add: receipt_action_def)
  from state_signals_no_receipt [OF dispatch_signals [OF d]]
       state_signals_no_receipt [OF prune_departed_signals [OF p]] Cons.IH [OF r] g m
  show ?case by simp
qed

lemma receipt_calls_kept:
  "filter receipt_action (map (\<lambda>(user, ev, d). Call_update_receipt user ev (nat d)) ups)
     = map (\<lambda>(user, ev, d). Call_update_receipt user ev (nat d)) ups"
  by (induction ups) (auto simp: receipt_action_def)

lemma apply_receipts_calls:
  "apply_receipts ups r = Inr (r', a) \<Longrightarrow>
   a = map (\<lambda>(user, ev, d). Call_update_receipt user ev (nat d)) ups"
proof (induction ups arbitrary: r a)
  case Nil
  then show ?case by simp
next
  case (Cons up ups)
  obtain user ev d where up: "up = (user, ev, d)" by (cases up)
  from Cons.prems up obtain a1 where
    t: "to_uint64 d = Inr (nat d)"
    and r: "apply_receipts ups (update_receipt user ev (nat d) r) = Inr (r', a1)"
    and a: "a = Call_update_receipt user ev (nat d) # a1"
    by (auto simp: to_uint64_def split: sum.splits if_splits)
  from Cons.IH [OF r] a up show ?case by simp
qed

lemma dispatch_ephemeral_receipts:
  "dispatch_ephemeral evts r = Inr (r', a) \<Longrightarrow>
   filter receipt_action a = concat (map receipt_block (filter (\<lambda>e. type e = ''m.receipt'') evts))"
proof (induction evts arbitrary: r r' a)
  case Nil
  then show ?case by simp
next
  case (Cons evt evts)
  have c: "receipt_action (Emit sig_receipts_changed)" "\<not> receipt_action (Emit sig_typing_changed)"
    by (simp_all add: receipt_action_def)
  show ?case
  proof (cases "type evt = ''m.receipt''")
    case True
    with Cons.prems obtain r1 calls rest where
      u: "apply_receipts (receipt_updates evt) r = Inr (r1, calls)"
      and d: "dispatch_ephemeral evts r1 = Inr (r', rest)"
      and a: "a = calls @ [Emit sig_receipts_changed] @ rest"
      by (auto split: sum.splits)
    from apply_receipts_calls [OF u] Cons.IH [OF d] a c True show ?thesis
      by (simp add: receipt_block_def receipt_calls_kept)
  next
    case False
    with Cons.prems Cons.IH c show ?thesis
      by (auto split: sum.splits if_splits)
  qed
qed

lemma dispatch_batch_signals:
  assumes "dispatch_batch nfc joined r = Inr (touched, r', g)"
  shows "filter receipt_action (map Emit g) = []"
proof -
  have n: "\<not> receipt_action (Emit sig_discontinuity)" "\<not> receipt_action (Emit (sig_prev_batch p))" for p
    by (simp_all add: receipt_action_def)
  from assms n show ?thesis
    by (auto simp: dispatch_batch_def Let_def split: if_splits sum.splits prod.splits
        dest!: dispatch_timeline_signals)
qed

lemma dispatch_counts_signals:
  "dispatch_counts joined r = (r', g) \<Longrightarrow> filter receipt_action (map Emit g) = []"
  by (auto simp: dispatch_counts_def receipt_action_def)

definition receipt_event :: "string \<Rightarrow> string \<Rightarrow> int \<Rightarrow> Event" where
  "receipt_event ev user t =
     \<lparr>type = ''m.receipt'', sender = [], event_id = [], state_key = [],
      content = [(ev, JObj [(''m.read'', JObj [(user, JObj [(''ts'', JNum t)])])])],
      prev_content = None\<rparr>"

definition receipt_delta :: "Event list \<Rightarrow> JoinedRoom" where
  "receipt_delta evts =
     \<lparr>unread_highlight_count = 0, unread_notification_count = 0, timeline_limited = False,
      timeline_prev_batch = ''p1'', timeline_events = [], ephemeral_events = evts\<rparr>"

definition receipt_trace :: "(string \<Rightarrow> string) \<Rightarrow> JoinedRoom \<Rightarrow> Room \<Rightarrow> action list" where
  "receipt_trace nfc joined r =
     (case Room_dispatch nfc joined r of
        Inl err \<Rightarrow> []
      | Inr (touched, r', trace) \<Rightarrow> filter receipt_action trace)"

lemmas delta_eval = Room_dispatch_def dispatch_counts_def dispatch_batch_def new_Room_def
  receipt_delta_def receipt_event_def receipt_updates_def receipt_action_def at_key_def Let_def
  to_uint64_def

text \<open>
  C9, as the claim states it, fails: a delta whose ephemeral events hold two \<^verbatim>\<open>m.receipt\<close>
  events emits \<open>receipts_changed\<close> twice, the first time before the \<open>update_receipt\<close> call
  of the second event.
\<close>

theorem receipts_changed_twice:
  "receipt_trace (\<lambda>n. n)
     (receipt_delta [receipt_event ''$1'' ''@a:x'' 10, receipt_event ''$2'' ''@b:x'' 20])
     (new_Room ''!r:x'' \<lparr>user_id = ''@me:x'', buffer_size = 50, next_transaction = 0\<rparr>)
   = [Call_update_receipt ''@a:x'' ''$1'' 10, Emit sig_receipts_changed,
      Call_update_receipt ''@b:x'' ''$2'' 20, Emit sig_receipts_changed]"
  by (simp add: receipt_trace_def delta_eval)

text \<open>
  C9, amended: \<open>receipts_changed\<close> is emitted once per \<^verbatim>\<open>m.receipt\<close> ephemeral event of
  the delta, directly after the \<open>update_receipt\<close> calls of that event; nothing else in
  \<open>Room.dispatch\<close> calls \<open>update_receipt\<close> or emits \<open>receipts_changed\<close>. A delta with at
  most one \<^verbatim>\<open>m.receipt\<close> event therefore emits it at most once, after every update.
\<close>

theorem receipts_changed_per_event:
  assumes "Room_dispatch nfc joined r = Inr (touched, r', trace)"
  shows "filter receipt_action trace = concat (map receipt_block (receipt_events joined))"
proof -
  from assms obtain r1 g1 r2 g2 a where
    c: "dispatch_counts joined r = (r1, g1)"
    and b: "dispatch_batch nfc joined r1 = Inr (touched, r2, g2)"
    and e: "dispatch_ephemeral (ephemeral_events joined) r2 = Inr (r', a)"
    and t: "trace = map Emit (g1 @ g2) @ a @ (if touched then [Emit sig_state_changed] else [])"
    by (auto simp: Room_dispatch_def Let_def split: sum.splits prod.splits)
  have s: "\<not> receipt_action (Emit sig_state_changed)" by (simp add: receipt_action_def)
  from dispatch_counts_signals [OF c] dispatch_batch_signals [OF b]
       dispatch_ephemeral_receipts [OF e] t s
  show ?thesis by (simp add: receipt_events_def)
qed

theorem receipts_changed_per_event_witness:
  "\<exists>r' trace.
     Room_dispatch (\<lambda>n. n) (receipt_delta [receipt_event ''$1'' ''@a:x'' 10])
       (new_Room ''!r:x'' \<lparr>user_id = ''@me:x'', buffer_size = 50, next_transaction = 0\<rparr>)
       = Inr (False, r', trace)
     \<and> filter receipt_action trace
         = [Call_update_receipt ''@a:x'' ''$1'' 10, Emit sig_receipts_changed]"
proof -
  obtain r' trace where
    d: "Room_dispatch (\<lambda>n. n) (receipt_delta [receipt_event ''$1'' ''@a:x'' 10])
          (new_Room ''!r:x'' \<lparr>user_id = ''@me:x'', buffer_size = 50, next_transaction = 0\<rparr>)
        = Inr (False, r', trace)"
    by (simp add: delta_eval)
  from receipts_changed_per_event [OF d]
  have "filter receipt_action trace
         = [Call_update_receipt ''@a:x'' ''$1'' 10, Emit sig_receipts_changed]"
    by (simp add: receipt_events_def receipt_block_def receipt_delta_def receipt_event_def
        receipt_updates_def at_key_def)
  with d show ?thesis by blast
qed

section \<open>The sender: one transaction id per logical event\<close>

text \<open>
  The requests of a run, read off what it leaves behind. The send queue is first-in first-out,
  so the logical events are numbered by their position among all \<open>send\<close> calls, and the
  event a \<open>Put\<close> transmits is the one at the head of the queue: its number is the number of
  \<open>Pop_front\<close> before it.
\<close>

record transmission =
  serial :: nat
  txn :: string
  sent_type :: string
  sent_content :: QJsonObject

definition pops :: "action list \<Rightarrow> nat" where
  "pops T = length (filter (\<lambda>a. a = Pop_front) T)"

fun puts_from :: "nat \<Rightarrow> action list \<Rightarrow> transmission list" where
  "puts_from n [] = []"
| "puts_from n (Pop_front # T) = puts_from (Suc n) T"
| "puts_from n (Put rid ty t c # T) =
     \<lparr>serial = n, txn = t, sent_type = ty, sent_content = c\<rparr> # puts_from n T"
| "puts_from n (a # T) = puts_from n T"

definition transmissions :: "action list \<Rightarrow> transmission list" where
  "transmissions T = puts_from 0 T"

fun sends_of :: "input list \<Rightarrow> (string \<times> QJsonObject) list" where
  "sends_of [] = []"
| "sends_of (Send ty c # inps) = (ty, c) # sends_of inps"
| "sends_of (inp # inps) = sends_of inps"

lemma pops_append [simp]: "pops (T @ T') = pops T + pops T'"
  by (simp add: pops_def)

lemma puts_from_append: "puts_from n (T @ T') = puts_from n T @ puts_from (n + pops T) T'"
  by (induction n T rule: puts_from.induct) (simp_all add: pops_def)

lemma sends_of_append [simp]: "sends_of (xs @ ys) = sends_of xs @ sends_of ys"
  by (induction xs rule: sends_of.induct) simp_all

text \<open>
  The invariant of the sender, in four parts: the queue is what remains of the sent events;
  every request carried the event at the head and an id the session had issued; requests agree
  on the event exactly when they agree on the id; and the stored id is empty exactly while the
  head event has not been transmitted, and otherwise is the id of all its requests.
\<close>

definition queue_ok :: "Room \<Rightarrow> action list \<Rightarrow> (string \<times> QJsonObject) list \<Rightarrow> bool" where
  "queue_ok r T sends = (pops T \<le> length sends \<and> pending_events r = drop (pops T) sends)"

definition puts_ok ::
  "(nat \<Rightarrow> string) \<Rightarrow> nat \<Rightarrow> action list \<Rightarrow> (string \<times> QJsonObject) list \<Rightarrow> bool" where
  "puts_ok txn_id next T sends =
     (\<forall>p \<in> set (transmissions T).
        serial p \<le> pops T \<and> serial p < length sends
        \<and> sends ! serial p = (sent_type p, sent_content p)
        \<and> (\<exists>j < next. txn p = txn_id j))"

definition puts_idempotent :: "action list \<Rightarrow> bool" where
  "puts_idempotent T =
     (\<forall>p \<in> set (transmissions T). \<forall>q \<in> set (transmissions T).
        serial p = serial q \<longleftrightarrow> txn p = txn q)"

definition stored_ok :: "(nat \<Rightarrow> string) \<Rightarrow> nat \<Rightarrow> string \<Rightarrow> action list \<Rightarrow> bool" where
  "stored_ok txn_id next stored T =
     (if stored = [] then (\<forall>p \<in> set (transmissions T). serial p < pops T)
      else (\<exists>j < next. stored = txn_id j)
           \<and> (\<exists>p \<in> set (transmissions T). txn p = stored)
           \<and> (\<forall>p \<in> set (transmissions T). serial p = pops T \<longleftrightarrow> txn p = stored))"

definition sender_inv ::
  "(nat \<Rightarrow> string) \<Rightarrow> Room \<Rightarrow> action list \<Rightarrow> (string \<times> QJsonObject) list \<Rightarrow> bool" where
  "sender_inv txn_id r T sends =
     (queue_ok r T sends
      \<and> puts_ok txn_id (next_transaction (session r)) T sends
      \<and> puts_idempotent T
      \<and> stored_ok txn_id (next_transaction (session r)) (last_transmit_transaction r) T)"

lemma transmissions_snoc_put:
  "transmissions (T @ [Put rid ty t c])
     = transmissions T @ [\<lparr>serial = pops T, txn = t, sent_type = ty, sent_content = c\<rparr>]"
  by (simp add: transmissions_def puts_from_append)

lemma pops_single_put [simp]: "pops [Put rid ty t c] = 0"
  by (simp add: pops_def)

text \<open>A first transmission: the stored id is empty, a fresh one is drawn.\<close>

lemma first_put_inv:
  assumes inj: "inj txn_id" and ne: "txn_id next \<noteq> []"
    and p: "puts_ok txn_id next T sends" and i: "puts_idempotent T"
    and st: "stored_ok txn_id next [] T"
    and lt: "pops T < length sends" and ev: "sends ! pops T = (ty, c)"
  shows "puts_ok txn_id (Suc next) (T @ [Put rid ty (txn_id next) c]) sends"
    and "puts_idempotent (T @ [Put rid ty (txn_id next) c])"
    and "stored_ok txn_id (Suc next) (txn_id next) (T @ [Put rid ty (txn_id next) c])"
proof -
  from st have before: "\<And>p. p \<in> set (transmissions T) \<Longrightarrow> serial p < pops T"
    by (simp add: stored_ok_def)
  have fresh: "txn p \<noteq> txn_id next" if "p \<in> set (transmissions T)" for p
  proof -
    from p that obtain j where "j < next" and "txn p = txn_id j" by (auto simp: puts_ok_def)
    with inj show ?thesis by (auto simp: inj_eq)
  qed
  show "puts_ok txn_id (Suc next) (T @ [Put rid ty (txn_id next) c]) sends"
    unfolding puts_ok_def transmissions_snoc_put
  proof
    fix q assume "q \<in> set (transmissions T @ [\<lparr>serial = pops T, txn = txn_id next, sent_type = ty, sent_content = c\<rparr>])"
    then consider "q \<in> set (transmissions T)"
      | "q = \<lparr>serial = pops T, txn = txn_id next, sent_type = ty, sent_content = c\<rparr>" by auto
    then show "serial q \<le> pops (T @ [Put rid ty (txn_id next) c]) \<and> serial q < length sends
        \<and> sends ! serial q = (sent_type q, sent_content q) \<and> (\<exists>j<Suc next. txn q = txn_id j)"
    proof cases
      case 1
      with p have "serial q \<le> pops T \<and> serial q < length sends
        \<and> sends ! serial q = (sent_type q, sent_content q) \<and> (\<exists>j<next. txn q = txn_id j)"
        by (simp add: puts_ok_def)
      then show ?thesis using less_Suc_eq by auto
    next
      case 2
      with lt ev show ?thesis by auto
    qed
  qed
  show "puts_idempotent (T @ [Put rid ty (txn_id next) c])"
    unfolding puts_idempotent_def transmissions_snoc_put
  proof (intro ballI)
    fix a b
    assume "a \<in> set (transmissions T @ [\<lparr>serial = pops T, txn = txn_id next, sent_type = ty, sent_content = c\<rparr>])"
      and "b \<in> set (transmissions T @ [\<lparr>serial = pops T, txn = txn_id next, sent_type = ty, sent_content = c\<rparr>])"
    then consider "a \<in> set (transmissions T)" "b \<in> set (transmissions T)"
      | "a \<in> set (transmissions T)" "serial b = pops T" "txn b = txn_id next"
      | "b \<in> set (transmissions T)" "serial a = pops T" "txn a = txn_id next"
      | "serial a = pops T" "txn a = txn_id next" "serial b = pops T" "txn b = txn_id next"
      by auto
    then show "(serial a = serial b) = (txn a = txn b)"
    proof cases
      case 1 with i show ?thesis by (simp add: puts_idempotent_def)
    next
      case 2 with before [of a] fresh [of a] show ?thesis by (metis less_irrefl)
    next
      case 3 with before [of b] fresh [of b] show ?thesis by (metis less_irrefl)
    next
      case 4 then show ?thesis by simp
    qed
  qed
  show "stored_ok txn_id (Suc next) (txn_id next) (T @ [Put rid ty (txn_id next) c])"
  proof -
    have "\<exists>j<Suc next. txn_id next = txn_id j" by auto
    moreover have "\<forall>q \<in> set (transmissions T). (serial q = pops T) = (txn q = txn_id next)"
    proof
      fix q assume "q \<in> set (transmissions T)"
      from before [OF this] fresh [OF this] show "(serial q = pops T) = (txn q = txn_id next)"
        by simp
    qed
    ultimately show ?thesis
      unfolding stored_ok_def transmissions_snoc_put using ne by simp
  qed
qed

text \<open>A retransmission: the stored id is used again.\<close>

lemma repeated_put_inv:
  assumes p: "puts_ok txn_id next T sends" and i: "puts_idempotent T"
    and st: "stored_ok txn_id next stored T" and s: "stored \<noteq> []"
    and lt: "pops T < length sends" and ev: "sends ! pops T = (ty, c)"
  shows "puts_ok txn_id next (T @ [Put rid ty stored c]) sends"
    and "puts_idempotent (T @ [Put rid ty stored c])"
    and "stored_ok txn_id next stored (T @ [Put rid ty stored c])"
proof -
  from st s have j: "\<exists>j < next. stored = txn_id j"
    and ex: "\<exists>p \<in> set (transmissions T). txn p = stored"
    and cur: "\<And>p. p \<in> set (transmissions T) \<Longrightarrow> (serial p = pops T) = (txn p = stored)"
    by (simp_all add: stored_ok_def)
  show "puts_ok txn_id next (T @ [Put rid ty stored c]) sends"
    unfolding puts_ok_def transmissions_snoc_put
  proof
    fix q assume "q \<in> set (transmissions T @ [\<lparr>serial = pops T, txn = stored, sent_type = ty, sent_content = c\<rparr>])"
    then consider "q \<in> set (transmissions T)"
      | "q = \<lparr>serial = pops T, txn = stored, sent_type = ty, sent_content = c\<rparr>" by auto
    then show "serial q \<le> pops (T @ [Put rid ty stored c]) \<and> serial q < length sends
        \<and> sends ! serial q = (sent_type q, sent_content q) \<and> (\<exists>j<next. txn q = txn_id j)"
    proof cases
      case 1
      with p show ?thesis by (simp add: puts_ok_def)
    next
      case 2
      with lt ev j show ?thesis by auto
    qed
  qed
  show "puts_idempotent (T @ [Put rid ty stored c])"
    unfolding puts_idempotent_def transmissions_snoc_put
  proof (intro ballI)
    fix a b
    assume "a \<in> set (transmissions T @ [\<lparr>serial = pops T, txn = stored, sent_type = ty, sent_content = c\<rparr>])"
      and "b \<in> set (transmissions T @ [\<lparr>serial = pops T, txn = stored, sent_type = ty, sent_content = c\<rparr>])"
    then consider "a \<in> set (transmissions T)" "b \<in> set (transmissions T)"
      | "a \<in> set (transmissions T)" "serial b = pops T" "txn b = stored"
      | "b \<in> set (transmissions T)" "serial a = pops T" "txn a = stored"
      | "serial a = pops T" "txn a = stored" "serial b = pops T" "txn b = stored"
      by auto
    then show "(serial a = serial b) = (txn a = txn b)"
    proof cases
      case 1 with i show ?thesis by (simp add: puts_idempotent_def)
    next
      case 2 with cur [of a] show ?thesis by metis
    next
      case 3 with cur [of b] show ?thesis by metis
    next
      case 4 then show ?thesis by simp
    qed
  qed
  show "stored_ok txn_id next stored (T @ [Put rid ty stored c])"
    unfolding stored_ok_def transmissions_snoc_put using s j cur ex by simp
qed


lemma sender_inv_fields:
  assumes "pending_events r' = pending_events r"
    and "next_transaction (session r') = next_transaction (session r)"
    and "last_transmit_transaction r' = last_transmit_transaction r"
  shows "sender_inv txn_id r' T sends = sender_inv txn_id r T sends"
  using assms by (simp add: sender_inv_def queue_ok_def)

definition quiet :: "action \<Rightarrow> bool" where
  "quiet a = (case a of Put rid ty t c \<Rightarrow> False | Pop_front \<Rightarrow> False | _ \<Rightarrow> True)"

lemma quiet_snoc:
  assumes "quiet a"
  shows "transmissions (T @ [a]) = transmissions T" and "pops (T @ [a]) = pops T"
  using assms by (cases a; simp add: quiet_def transmissions_def puts_from_append pops_def)+

lemma sender_inv_snoc_quiet:
  assumes "quiet a"
  shows "sender_inv txn_id r (T @ [a]) sends = sender_inv txn_id r T sends"
  using quiet_snoc [OF assms, of T]
  by (simp add: sender_inv_def queue_ok_def puts_ok_def puts_idempotent_def stored_ok_def)

lemma transmit_event_inv:
  assumes inj: "inj txn_id" and ne: "\<forall>n. txn_id n \<noteq> []"
    and inv: "sender_inv txn_id r T sends"
    and run: "transmit_event txn_id r = Inr (r', a)"
  shows "sender_inv txn_id r' (T @ a) sends"
proof (cases "transmitting r")
  case True
  with run inv show ?thesis by (simp add: transmit_event_def)
next
  case False
  with run obtain ev q where pe: "pending_events r = ev # q"
    by (cases "pending_events r") (auto simp: transmit_event_def)
  from inv have n: "pops T \<le> length sends" and d: "pending_events r = drop (pops T) sends"
    and p: "puts_ok txn_id (next_transaction (session r)) T sends"
    and i: "puts_idempotent T"
    and st: "stored_ok txn_id (next_transaction (session r)) (last_transmit_transaction r) T"
    by (simp_all add: sender_inv_def queue_ok_def)
  from pe d have lt: "pops T < length sends" by (cases "pops T < length sends") auto
  from pe d lt have ev: "sends ! pops T = (fst ev, snd ev)"
    by (metis Cons_nth_drop_Suc list.inject prod.collapse)
  show ?thesis
  proof (cases "last_transmit_transaction r = []")
    case True
    let ?t = "txn_id (next_transaction (session r))"
    from run False pe True have r': "r' = r\<lparr>session := (session r)\<lparr>next_transaction := Suc (next_transaction (session r))\<rparr>,
                         last_transmit_transaction := ?t, transmitting := True\<rparr>"
      and a: "a = [Put (room_id r) (fst ev) ?t (snd ev)]"
      by (auto simp: transmit_event_def get_transaction_id_def)
    from ne have "?t \<noteq> []" by simp
    from first_put_inv [OF inj this p i _ lt ev, of "room_id r"] st True n d
    show ?thesis by (simp add: sender_inv_def queue_ok_def r' a)
  next
    case nonempty: False
    from run False pe nonempty have r': "r' = r\<lparr>session := session r,
                         last_transmit_transaction := last_transmit_transaction r, transmitting := True\<rparr>"
      and a: "a = [Put (room_id r) (fst ev) (last_transmit_transaction r) (snd ev)]"
      by (auto simp: transmit_event_def)
    from repeated_put_inv [OF p i st nonempty lt ev, of "room_id r"] n d
    show ?thesis by (simp add: sender_inv_def queue_ok_def r' a)
  qed
qed

lemma pop_inv:
  assumes inv: "sender_inv txn_id r T sends" and pe: "pending_events r = ev # q"
    and r': "pending_events r' = q" "last_transmit_transaction r' = []"
      "next_transaction (session r') = next_transaction (session r)"
  shows "sender_inv txn_id r' (T @ [Pop_front]) sends"
proof -
  from inv have n: "pops T \<le> length sends" and d: "pending_events r = drop (pops T) sends"
    and p: "puts_ok txn_id (next_transaction (session r)) T sends"
    and i: "puts_idempotent T"
    by (simp_all add: sender_inv_def queue_ok_def)
  from pe d have lt: "pops T < length sends" by (cases "pops T < length sends") auto
  from pe d lt have q: "q = drop (Suc (pops T)) sends"
    by (metis Cons_nth_drop_Suc list.inject)
  have t: "transmissions (T @ [Pop_front]) = transmissions T"
    by (simp add: transmissions_def puts_from_append)
  have c: "pops (T @ [Pop_front]) = Suc (pops T)" by (simp add: pops_def)
  have "queue_ok r' (T @ [Pop_front]) sends" using lt q r'(1) c by (simp add: queue_ok_def)
  moreover have "puts_ok txn_id (next_transaction (session r')) (T @ [Pop_front]) sends"
    using p r'(3) unfolding puts_ok_def t c by auto
  moreover have "puts_idempotent (T @ [Pop_front])"
    using i unfolding puts_idempotent_def t .
  moreover have "stored_ok txn_id (next_transaction (session r')) (last_transmit_transaction r') (T @ [Pop_front])"
    using p r'(2) unfolding stored_ok_def puts_ok_def t c by (auto simp: less_Suc_eq_le)
  ultimately show ?thesis by (simp add: sender_inv_def)
qed


text \<open>
  The replies \<open>transmit_finished\<close> retries on: an error that is not an HTTP client error
  other than 429.
\<close>

definition transient_failure :: "Reply \<Rightarrow> bool" where
  "transient_failure reply =
     (\<not> (400 \<le> code reply \<and> code reply < 500 \<and> code reply \<noteq> 429) \<and> error_string reply \<noteq> None)"

lemma transmit_finished_retry:
  assumes "transmit_finished txn_id reply r = Inr (r', a)" and "transient_failure reply"
  shows "pending_events r' = pending_events r
       \<and> last_transmit_transaction r' = last_transmit_transaction r
       \<and> session r' = session r
       \<and> (a = [] \<or> a = [Start_timer (retry_backoff r div 1000000)])"
  using assms
  by (auto simp: transmit_finished_def transient_failure_def Let_def split: if_splits)

lemma transmit_finished_done:
  assumes "transmit_finished txn_id reply r = Inr (r', a)" and "\<not> transient_failure reply"
  shows "\<exists>ev q pre a3.
           pending_events r = ev # q
         \<and> (pre = [] \<or> (\<exists>msg. pre = [Emit (sig_error msg)]))
         \<and> a = pre @ [Pop_front] @ a3
         \<and> ((q = [] \<and> a3 = []
              \<and> r' = r\<lparr>transmitting := False, pending_events := q,
                        last_transmit_transaction := [], retry_backoff := MINIMUM_BACKOFF\<rparr>)
            \<or> (q \<noteq> [] \<and> transmit_event txn_id
                  (r\<lparr>transmitting := False, pending_events := q,
                     last_transmit_transaction := [], retry_backoff := MINIMUM_BACKOFF\<rparr>)
                 = Inr (r', a3)))"
proof (cases "400 \<le> code reply \<and> code reply < 500 \<and> code reply \<noteq> 429")
  case True
  with assms(1) show ?thesis
    by (cases "error_string reply"; cases "pending_events r")
       (auto simp: transmit_finished_def Let_def split: sum.splits if_splits)
next
  case False
  with assms(2) have "error_string reply = None" by (simp add: transient_failure_def)
  with False assms(1) show ?thesis
    by (cases "pending_events r")
       (auto simp: transmit_finished_def Let_def split: sum.splits if_splits)
qed

lemma transmit_finished_inv:
  assumes inj: "inj txn_id" and ne: "\<forall>n. txn_id n \<noteq> []"
    and inv: "sender_inv txn_id r T sends"
    and run: "transmit_finished txn_id reply r = Inr (r', a)"
  shows "sender_inv txn_id r' (T @ a) sends"
proof (cases "transient_failure reply")
  case True
  from transmit_finished_retry [OF run True]
  have f: "pending_events r' = pending_events r"
      "next_transaction (session r') = next_transaction (session r)"
      "last_transmit_transaction r' = last_transmit_transaction r"
    and a: "a = [] \<or> a = [Start_timer (retry_backoff r div 1000000)]" by simp_all
  have "quiet (Start_timer (retry_backoff r div 1000000))" by (simp add: quiet_def)
  from sender_inv_snoc_quiet [OF this] sender_inv_fields [OF f] inv a
  show ?thesis by auto
next
  case False
  from transmit_finished_done [OF run False] obtain ev q pre a3 where
    pe: "pending_events r = ev # q"
    and pre: "pre = [] \<or> (\<exists>msg. pre = [Emit (sig_error msg)])"
    and a: "a = pre @ [Pop_front] @ a3"
    and rest: "(q = [] \<and> a3 = []
              \<and> r' = r\<lparr>transmitting := False, pending_events := q,
                        last_transmit_transaction := [], retry_backoff := MINIMUM_BACKOFF\<rparr>)
            \<or> (q \<noteq> [] \<and> transmit_event txn_id
                  (r\<lparr>transmitting := False, pending_events := q,
                     last_transmit_transaction := [], retry_backoff := MINIMUM_BACKOFF\<rparr>)
                 = Inr (r', a3))"
    by blast
  let ?r2 = "r\<lparr>transmitting := False, pending_events := q,
               last_transmit_transaction := [], retry_backoff := MINIMUM_BACKOFF\<rparr>"
  have "sender_inv txn_id r (T @ pre) sends"
  proof -
    have "quiet (Emit (sig_error msg))" for msg by (simp add: quiet_def)
    from sender_inv_snoc_quiet [OF this] pre inv show ?thesis by auto
  qed
  from pop_inv [OF this pe, of ?r2]
  have 2: "sender_inv txn_id ?r2 ((T @ pre) @ [Pop_front]) sends" by simp
  from rest show ?thesis
  proof
    assume "q = [] \<and> a3 = [] \<and> r' = ?r2"
    with 2 a show ?thesis by simp
  next
    assume "q \<noteq> [] \<and> transmit_event txn_id ?r2 = Inr (r', a3)"
    with transmit_event_inv [OF inj ne 2] a show ?thesis by simp
  qed
qed

lemma send_inv:
  assumes inj: "inj txn_id" and ne: "\<forall>n. txn_id n \<noteq> []"
    and inv: "sender_inv txn_id r T sends"
    and run: "send txn_id ty c r = Inr (r', a)"
  shows "sender_inv txn_id r' (T @ a) (sends @ [(ty, c)])"
proof -
  let ?r1 = "r\<lparr>pending_events := pending_events r @ [(ty, c)]\<rparr>"
  from inv have n: "pops T \<le> length sends" and d: "pending_events r = drop (pops T) sends"
    and p: "puts_ok txn_id (next_transaction (session r)) T sends"
    and i: "puts_idempotent T"
    and st: "stored_ok txn_id (next_transaction (session r)) (last_transmit_transaction r) T"
    by (simp_all add: sender_inv_def queue_ok_def)
  have "queue_ok ?r1 T (sends @ [(ty, c)])" using n d by (simp add: queue_ok_def)
  moreover have "puts_ok txn_id (next_transaction (session ?r1)) T (sends @ [(ty, c)])"
    using p by (auto simp: puts_ok_def nth_append)
  ultimately have "sender_inv txn_id ?r1 T (sends @ [(ty, c)])"
    using i st by (simp add: sender_inv_def)
  from transmit_event_inv [OF inj ne this] run show ?thesis by (simp add: send_def)
qed

lemma sender_step_inv:
  assumes inj: "inj txn_id" and ne: "\<forall>n. txn_id n \<noteq> []"
    and inv: "sender_inv txn_id r T sends"
    and run: "sender_step txn_id inp r = Inr (r', a)"
  shows "sender_inv txn_id r' (T @ a) (sends @ sends_of [inp])"
proof (cases inp)
  case (Send ty c)
  with run send_inv [OF inj ne inv] show ?thesis by (simp add: sender_step_def)
next
  case (Finished reply)
  with run transmit_finished_inv [OF inj ne inv] show ?thesis
    by (simp add: sender_step_def split: if_splits)
next
  case Timeout
  with run obtain ms where "transmit_event txn_id (r\<lparr>transmit_retry_timer := None\<rparr>) = Inr (r', a)"
    by (auto simp: sender_step_def split: option.splits)
  moreover have "sender_inv txn_id (r\<lparr>transmit_retry_timer := None\<rparr>) T sends"
    using inv by (simp add: sender_inv_def queue_ok_def)
  ultimately show ?thesis using transmit_event_inv [OF inj ne] Timeout by simp
qed

lemma sender_run_inv:
  assumes inj: "inj txn_id" and ne: "\<forall>n. txn_id n \<noteq> []"
  shows "sender_inv txn_id r T sends \<Longrightarrow> sender_run txn_id inps r = Inr (r', a)
         \<Longrightarrow> sender_inv txn_id r' (T @ a) (sends @ sends_of inps)"
proof (induction inps arbitrary: r T sends a)
  case Nil
  then show ?case by simp
next
  case (Cons inp inps)
  from Cons.prems(2) obtain r1 a1 a2 where
    1: "sender_step txn_id inp r = Inr (r1, a1)"
    and 2: "sender_run txn_id inps r1 = Inr (r', a2)" and a: "a = a1 @ a2"
    by (auto split: sum.splits prod.splits)
  from sender_step_inv [OF inj ne Cons.prems(1) 1]
  have "sender_inv txn_id r1 (T @ a1) (sends @ sends_of [inp])" .
  from Cons.IH [OF this 2] a show ?case
    by (cases inp) simp_all
qed


lemma transmit_finished_pop:
  assumes "transmit_finished txn_id reply r = Inr (r', a)"
  shows "(Pop_front \<in> set a \<longleftrightarrow> \<not> transient_failure reply)
       \<and> (transient_failure reply \<longrightarrow>
            last_transmit_transaction r' = last_transmit_transaction r
            \<and> pending_events r' = pending_events r)"
proof (cases "transient_failure reply")
  case True
  from transmit_finished_retry [OF assms True] True show ?thesis by auto
next
  case False
  from transmit_finished_done [OF assms False] False show ?thesis by auto
qed

text \<open>
  What the code does keep, for the runs that stay defined: provided the session's transaction
  ids are non-empty and pairwise distinct, in every run of the sender from a room with nothing
  queued and no stored id, two requests carry the same transaction id exactly when they
  transmit the same logical event (the initial attempt and all retries share one id, different
  events never do); each request carries the type and content of the event it stands for; the
  stored id is empty exactly while the event at the head of the queue has not been transmitted;
  and \<open>transmit_finished\<close> removes the head of the queue (and with it clears the stored id)
  exactly when the reply is not a transient failure, leaving queue and stored id untouched
  otherwise.
\<close>

lemma idempotent_while_defined:
  assumes "inj txn_id" and "\<forall>n. txn_id n \<noteq> []"
    and "pending_events r0 = []" and "last_transmit_transaction r0 = []"
    and "sender_run txn_id inps r0 = Inr (r, T)"
  shows "(\<forall>p \<in> set (transmissions T). \<forall>q \<in> set (transmissions T).
            serial p = serial q \<longleftrightarrow> txn p = txn q)
       \<and> (\<forall>p \<in> set (transmissions T).
            serial p < length (sends_of inps)
            \<and> sends_of inps ! serial p = (sent_type p, sent_content p))
       \<and> (last_transmit_transaction r = [] \<longleftrightarrow> (\<forall>p \<in> set (transmissions T). serial p < pops T))
       \<and> (\<forall>reply r1 r2 a. transmit_finished txn_id reply r1 = Inr (r2, a) \<longrightarrow>
            (Pop_front \<in> set a \<longleftrightarrow> \<not> transient_failure reply)
            \<and> (transient_failure reply \<longrightarrow>
                 last_transmit_transaction r2 = last_transmit_transaction r1
                 \<and> pending_events r2 = pending_events r1))"
proof -
  have "sender_inv txn_id r0 [] []"
    using assms(3,4)
    by (simp add: sender_inv_def queue_ok_def puts_ok_def puts_idempotent_def stored_ok_def
        transmissions_def pops_def)
  from sender_run_inv [OF assms(1,2) this assms(5)]
  have inv: "sender_inv txn_id r T (sends_of inps)" by simp
  then have i: "puts_idempotent T"
    and p: "puts_ok txn_id (next_transaction (session r)) T (sends_of inps)"
    and st: "stored_ok txn_id (next_transaction (session r)) (last_transmit_transaction r) T"
    by (simp_all add: sender_inv_def)
  have 1: "\<forall>p \<in> set (transmissions T). \<forall>q \<in> set (transmissions T).
            serial p = serial q \<longleftrightarrow> txn p = txn q"
    using i by (simp add: puts_idempotent_def)
  have 2: "\<forall>p \<in> set (transmissions T).
            serial p < length (sends_of inps)
            \<and> sends_of inps ! serial p = (sent_type p, sent_content p)"
    using p by (simp add: puts_ok_def)
  have 3: "last_transmit_transaction r = [] \<longleftrightarrow> (\<forall>p \<in> set (transmissions T). serial p < pops T)"
  proof (cases "last_transmit_transaction r = []")
    case True
    with st show ?thesis by (simp add: stored_ok_def)
  next
    case False
    with st obtain p where "p \<in> set (transmissions T)" and "txn p = last_transmit_transaction r"
      and "serial p = pops T \<longleftrightarrow> txn p = last_transmit_transaction r"
      by (auto simp: stored_ok_def)
    then have "p \<in> set (transmissions T)" and "\<not> serial p < pops T" by simp_all
    then have "\<not> (\<forall>p \<in> set (transmissions T). serial p < pops T)" by blast
    with False show ?thesis by simp
  qed
  from 1 2 3 transmit_finished_pop show ?thesis by blast
qed

text \<open>
  The scenario of the spec: send "hi", the homeserver answers 429, the timer expires, the
  retry succeeds, the next send draws a fresh id. Transaction ids are rendered in unary here.
\<close>

definition unary_txn :: "nat \<Rightarrow> string" where
  "unary_txn n = replicate (Suc n) CHR ''t''"

lemma unary_txn_inj: "inj unary_txn"
proof (rule injI)
  fix m n assume "unary_txn m = unary_txn n"
  then have "length (unary_txn m) = length (unary_txn n)" by simp
  then show "m = n" by (simp add: unary_txn_def)
qed

lemma unary_txn_nonempty: "\<forall>n. unary_txn n \<noteq> []"
  by (simp add: unary_txn_def)

definition hi :: QJsonObject where
  "hi = [(''msgtype'', JStr ''m.text''), (''body'', JStr ''hi'')]"

definition retry_scenario :: "input list" where
  "retry_scenario =
     [Send ''m.room.message'' hi,
      Finished \<lparr>code = 429, error_string = Some ''Too Many Requests''\<rparr>,
      Timeout,
      Finished \<lparr>code = 200, error_string = None\<rparr>,
      Send ''m.room.message'' hi]"

lemmas sender_eval = sender_run.simps sender_step_def send_def transmit_event_def
  transmit_finished_def get_transaction_id_def new_Room_def MINIMUM_BACKOFF_def unary_txn_def
  Let_def

lemma idempotent_while_defined_example:
  "inj unary_txn \<and> (\<forall>n. unary_txn n \<noteq> [])
   \<and> (\<exists>r. sender_run unary_txn retry_scenario
             (new_Room ''!r:x'' \<lparr>user_id = ''@me:x'', buffer_size = 50, next_transaction = 0\<rparr>)
           = Inr (r, [Put ''!r:x'' ''m.room.message'' ''t'' hi, Start_timer 5000,
                      Put ''!r:x'' ''m.room.message'' ''t'' hi, Pop_front,
                      Put ''!r:x'' ''m.room.message'' ''tt'' hi])
         \<and> last_transmit_transaction r \<noteq> [])"
proof -
  let ?r0 = "new_Room ''!r:x'' \<lparr>user_id = ''@me:x'', buffer_size = 50, next_transaction = 0\<rparr>"
  let ?T = "[Put ''!r:x'' ''m.room.message'' ''t'' hi, Start_timer 5000,
             Put ''!r:x'' ''m.room.message'' ''t'' hi, Pop_front,
             Put ''!r:x'' ''m.room.message'' ''tt'' hi]"
  obtain r where run: "sender_run unary_txn retry_scenario ?r0 = Inr (r, ?T)"
    by (simp add: sender_eval retry_scenario_def)
  have e: "pending_events ?r0 = []" "last_transmit_transaction ?r0 = []"
    by (simp_all add: new_Room_def)
  from idempotent_while_defined [OF unary_txn_inj unary_txn_nonempty e run]
  have "last_transmit_transaction r = [] \<longleftrightarrow> (\<forall>p \<in> set (transmissions ?T). serial p < pops ?T)"
    by blast
  then have "last_transmit_transaction r \<noteq> []"
    by (simp add: transmissions_def pops_def)
  with run unary_txn_inj unary_txn_nonempty show ?thesis by blast
qed


text \<open>
  The run in which the retry timer outlives the queue: "hi" is sent and answered 429, which
  arms the timer; a second event is sent during the back-off, and \<open>send\<close> retransmits "hi"
  at once; both requests then succeed and the queue is empty; then the timer, which nothing
  has stopped, expires.
\<close>

definition bye :: QJsonObject where
  "bye = [(''msgtype'', JStr ''m.text''), (''body'', JStr ''bye'')]"

definition stale_timer_scenario :: "input list" where
  "stale_timer_scenario =
     [Send ''m.room.message'' hi,
      Finished \<lparr>code = 429, error_string = Some ''Too Many Requests''\<rparr>,
      Send ''m.room.message'' bye,
      Finished \<lparr>code = 200, error_string = None\<rparr>,
      Finished \<lparr>code = 200, error_string = None\<rparr>]"

text \<open>
  C7: the claim is what the transaction id is for, and the code departs from it. Up to the
  end of \<open>stale_timer_scenario\<close> every request stands for a queued event and carries its id.
  The room is then idle with an empty queue, no stored id, and the retry timer still armed.
  When the timer expires, \<open>transmit_event\<close> reads the front of the empty queue: the behaviour
  is undefined, and the request the code goes on to build, under a freshly drawn id, stands for
  no event that was ever sent.
\<close>

theorem stale_timer_reads_empty_queue:
  "(\<exists>r. sender_run unary_txn stale_timer_scenario
            (new_Room ''!r:x'' \<lparr>user_id = ''@me:x'', buffer_size = 50, next_transaction = 0\<rparr>)
          = Inr (r, [Put ''!r:x'' ''m.room.message'' ''t'' hi, Start_timer 5000,
                     Put ''!r:x'' ''m.room.message'' ''t'' hi, Pop_front,
                     Put ''!r:x'' ''m.room.message'' ''tt'' bye, Pop_front])
        \<and> pending_events r = [] \<and> \<not> transmitting r \<and> last_transmit_transaction r = []
        \<and> transmit_retry_timer r = Some 5000
        \<and> sender_step unary_txn Timeout r = Inl Undefined)
   \<and> sender_run unary_txn (stale_timer_scenario @ [Timeout])
        (new_Room ''!r:x'' \<lparr>user_id = ''@me:x'', buffer_size = 50, next_transaction = 0\<rparr>)
      = Inl Undefined"
  by (simp add: sender_eval stale_timer_scenario_def)

section \<open>The sender: the back-off schedule\<close>

text \<open>
  The delays a run arms the retry timer with, the update of the stored back-off as
  \<open>transmit_finished\<close> computes it, and the inputs of a run of consecutive transient
  failures: every completion in it is a transient failure, whatever the reply; calls of
  \<open>send\<close> and expiries of the timer may lie anywhere in between.
\<close>

fun timer_starts :: "action list \<Rightarrow> nat list" where
  "timer_starts [] = []"
| "timer_starts (Start_timer ms # T) = ms # timer_starts T"
| "timer_starts (a # T) = timer_starts T"

definition next_backoff :: "nat \<Rightarrow> nat" where
  "next_backoff b = min 30000000000 (5 * b div 4)"

fun is_completion :: "input \<Rightarrow> bool" where
  "is_completion (Finished reply) = True"
| "is_completion inp = False"

fun transient_input :: "input \<Rightarrow> bool" where
  "transient_input (Finished reply) = transient_failure reply"
| "transient_input inp = True"

definition failure_count :: "input list \<Rightarrow> nat" where
  "failure_count inps = length (filter is_completion inps)"

text \<open>The plainest such run: each failure followed by the expiry of the timer.\<close>

fun failures :: "nat \<Rightarrow> Reply \<Rightarrow> input list" where
  "failures 0 reply = []"
| "failures (Suc k) reply = Finished reply # Timeout # failures k reply"

text \<open>The stored back-off after a number of consecutive transient failures.\<close>

fun backoff_from :: "nat \<Rightarrow> nat \<Rightarrow> nat" where
  "backoff_from b 0 = b"
| "backoff_from b (Suc n) = backoff_from (next_backoff b) n"

text \<open>
  The delay of the \<open>k\<close>-th retry as C8 states it, in seconds: five seconds times
  \<open>1.25 ^ (k - 1)\<close>, capped at thirty.
\<close>

definition claimed_delay :: "nat \<Rightarrow> rat" where
  "claimed_delay k = min (5 * (5 / 4) ^ (k - 1)) 30"

lemma timer_starts_append [simp]: "timer_starts (T @ T') = timer_starts T @ timer_starts T'"
  by (induction T rule: timer_starts.induct) simp_all

lemma failure_step:
  assumes "transient_failure reply" and "transmitting r" and "pending_events r = ev # q"
  shows "sender_step txn_id (Finished reply) r
         = Inr (r\<lparr>transmitting := False,
                  transmit_retry_timer := Some (retry_backoff r div 1000000),
                  retry_backoff := next_backoff (retry_backoff r)\<rparr>,
                [Start_timer (retry_backoff r div 1000000)])"
proof -
  from assms(1) have c: "\<not> (400 \<le> code reply \<and> code reply < 500 \<and> code reply \<noteq> 429)"
    and e: "error_string reply \<noteq> None" by (simp_all add: transient_failure_def)
  from e obtain msg where m: "error_string reply = Some msg" by auto
  have "transmit_finished txn_id reply r
         = Inr (r\<lparr>transmitting := False,
                  transmit_retry_timer := Some (retry_backoff r div 1000000),
                  retry_backoff := next_backoff (retry_backoff r)\<rparr>,
                [Start_timer (retry_backoff r div 1000000)])"
    unfolding transmit_finished_def Let_def if_not_P [OF c]
    by (simp add: m assms(3) next_backoff_def)
  with assms(2) show ?thesis by (simp add: sender_step_def)
qed

lemma transmit_event_quiet:
  assumes "pending_events r \<noteq> []"
  shows "\<exists>r1 a. transmit_event txn_id r = Inr (r1, a) \<and> timer_starts a = []
           \<and> pending_events r1 = pending_events r \<and> retry_backoff r1 = retry_backoff r"
proof -
  from assms obtain ev q where "pending_events r = ev # q" by (cases "pending_events r") auto
  then show ?thesis
    by (cases "last_transmit_transaction r = []"; cases "transmitting r")
       (simp_all add: transmit_event_def get_transaction_id_def)
qed

text \<open>
  One input of such a run, the queue not being empty: either the input cannot occur in the
  state (a completion with no request in flight, an expiry of an idle timer), or the step
  succeeds, keeps the queue non-empty, and arms the timer and advances the back-off exactly
  when the input is a completion.
\<close>

lemma transient_step:
  assumes "transient_input inp" and "pending_events r \<noteq> []"
  shows "sender_step txn_id inp r = Inl NotEnabled
       \<or> (\<exists>r1 a. sender_step txn_id inp r = Inr (r1, a) \<and> pending_events r1 \<noteq> []
             \<and> timer_starts a = (if is_completion inp then [retry_backoff r div 1000000] else [])
             \<and> retry_backoff r1 = (if is_completion inp then next_backoff (retry_backoff r)
                                   else retry_backoff r))"
proof (cases inp)
  case (Send ty c)
  have "pending_events (r\<lparr>pending_events := pending_events r @ [(ty, c)]\<rparr>) \<noteq> []" by simp
  from transmit_event_quiet [OF this, of txn_id] Send show ?thesis
    by (auto simp: sender_step_def send_def)
next
  case (Finished reply)
  show ?thesis
  proof (cases "transmitting r")
    case True
    from assms(2) obtain ev q where pe: "pending_events r = ev # q"
      by (cases "pending_events r") auto
    from assms(1) Finished have "transient_failure reply" by simp
    from failure_step [OF this True pe, of txn_id] Finished pe show ?thesis by simp
  next
    case False
    with Finished show ?thesis by (simp add: sender_step_def)
  qed
next
  case Timeout
  show ?thesis
  proof (cases "transmit_retry_timer r")
    case None
    with Timeout show ?thesis by (simp add: sender_step_def)
  next
    case (Some ms)
    have "pending_events (r\<lparr>transmit_retry_timer := None\<rparr>) \<noteq> []" using assms(2) by simp
    from transmit_event_quiet [OF this, of txn_id] Timeout Some assms(2) show ?thesis
      by (auto simp: sender_step_def)
  qed
qed

lemma sender_run_append:
  "sender_run txn_id (xs @ ys) r =
     (case sender_run txn_id xs r of
        Inl err \<Rightarrow> Inl err
      | Inr (r1, a1) \<Rightarrow>
          (case sender_run txn_id ys r1 of Inl err \<Rightarrow> Inl err | Inr (r2, a2) \<Rightarrow> Inr (r2, a1 @ a2)))"
  by (induction xs arbitrary: r) (auto split: sum.splits prod.splits)

lemma transient_run:
  assumes "list_all transient_input inps" and "pending_events r \<noteq> []"
  shows "sender_run txn_id inps r = Inl NotEnabled
       \<or> (\<exists>r' T. sender_run txn_id inps r = Inr (r', T)
             \<and> timer_starts T
                 = map (\<lambda>j. backoff_from (retry_backoff r) j div 1000000) [0..<failure_count inps]
             \<and> retry_backoff r' = backoff_from (retry_backoff r) (failure_count inps))"
  using assms
proof (induction inps arbitrary: r)
  case Nil
  then show ?case by (simp add: failure_count_def)
next
  case (Cons inp inps)
  from Cons.prems have ti: "transient_input inp" and tis: "list_all transient_input inps"
    by simp_all
  from transient_step [OF ti Cons.prems(2), of txn_id]
  consider "sender_step txn_id inp r = Inl NotEnabled"
    | r1 a where "sender_step txn_id inp r = Inr (r1, a)" "pending_events r1 \<noteq> []"
        "timer_starts a = (if is_completion inp then [retry_backoff r div 1000000] else [])"
        "retry_backoff r1 = (if is_completion inp then next_backoff (retry_backoff r)
                             else retry_backoff r)"
    by blast
  then show ?case
  proof cases
    case 1
    then show ?thesis by simp
  next
    case 2
    from Cons.IH [OF tis 2(2)]
    consider "sender_run txn_id inps r1 = Inl NotEnabled"
      | r' T where "sender_run txn_id inps r1 = Inr (r', T)"
          "timer_starts T
             = map (\<lambda>j. backoff_from (retry_backoff r1) j div 1000000) [0..<failure_count inps]"
          "retry_backoff r' = backoff_from (retry_backoff r1) (failure_count inps)"
      by blast
    then show ?thesis
    proof cases
      case 1
      with 2(1) show ?thesis by simp
    next
      case rest: 2
      have run: "sender_run txn_id (inp # inps) r = Inr (r', a @ T)"
        using 2(1) rest(1) by simp
      show ?thesis
      proof (cases "is_completion inp")
        case True
        then have n: "failure_count (inp # inps) = Suc (failure_count inps)"
          by (simp add: failure_count_def)
        have u: "[0..<Suc (failure_count inps)] = 0 # map Suc [0..<failure_count inps]"
          by (simp add: upt_conv_Cons map_Suc_upt del: upt_Suc)
        have "timer_starts (a @ T)
                = map (\<lambda>j. backoff_from (retry_backoff r) j div 1000000)
                    [0..<failure_count (inp # inps)]"
          unfolding n u using True 2(3,4) rest(2) by (simp add: comp_def)
        moreover have "retry_backoff r' = backoff_from (retry_backoff r) (failure_count (inp # inps))"
          unfolding n using True 2(4) rest(3) by simp
        ultimately show ?thesis using run by blast
      next
        case False
        then have n: "failure_count (inp # inps) = failure_count inps"
          by (simp add: failure_count_def)
        have "timer_starts (a @ T)
                = map (\<lambda>j. backoff_from (retry_backoff r) j div 1000000)
                    [0..<failure_count (inp # inps)]"
          unfolding n using False 2(3,4) rest(2) by simp
        moreover have "retry_backoff r' = backoff_from (retry_backoff r) (failure_count (inp # inps))"
          unfolding n using False 2(4) rest(3) by simp
        ultimately show ?thesis using run by blast
      qed
    qed
  qed
qed


text \<open>The delay the code arms the timer with at the \<open>k\<close>-th consecutive failure.\<close>

definition delay_ms :: "nat \<Rightarrow> nat" where
  "delay_ms k = backoff_from MINIMUM_BACKOFF (k - 1) div 1000000"

lemma backoff_from_add: "backoff_from b (m + n) = backoff_from (backoff_from b m) n"
  by (induction m arbitrary: b) simp_all

lemma backoff_from_cap: "backoff_from 30000000000 n = 30000000000"
  by (induction n) (simp_all add: next_backoff_def)

lemma backoff_values:
  "backoff_from MINIMUM_BACKOFF 0 = 5000000000"
  "backoff_from MINIMUM_BACKOFF (Suc 0) = 6250000000"
  "backoff_from MINIMUM_BACKOFF (Suc (Suc 0)) = 7812500000"
  "backoff_from MINIMUM_BACKOFF (Suc (Suc (Suc 0))) = 9765625000"
  "backoff_from MINIMUM_BACKOFF (Suc (Suc (Suc (Suc 0)))) = 12207031250"
  "backoff_from MINIMUM_BACKOFF (Suc (Suc (Suc (Suc (Suc 0))))) = 15258789062"
  "backoff_from MINIMUM_BACKOFF (Suc (Suc (Suc (Suc (Suc (Suc 0)))))) = 19073486327"
  "backoff_from MINIMUM_BACKOFF (Suc (Suc (Suc (Suc (Suc (Suc (Suc 0))))))) = 23841857908"
  "backoff_from MINIMUM_BACKOFF (Suc (Suc (Suc (Suc (Suc (Suc (Suc (Suc 0)))))))) = 29802322385"
  "backoff_from MINIMUM_BACKOFF (Suc (Suc (Suc (Suc (Suc (Suc (Suc (Suc (Suc 0))))))))) = 30000000000"
  by (simp_all add: next_backoff_def MINIMUM_BACKOFF_def)

lemma backoff_capped:
  "backoff_from MINIMUM_BACKOFF (Suc (Suc (Suc (Suc (Suc (Suc (Suc (Suc (Suc 0)))))))) + m)
     = 30000000000"
  unfolding backoff_from_add backoff_values backoff_from_cap ..

lemma claimed_values:
  "1000 * claimed_delay (Suc 0) = 5000"
  "1000 * claimed_delay (Suc (Suc 0)) = 6250"
  "1000 * claimed_delay (Suc (Suc (Suc 0))) = 15625 / 2"
  "1000 * claimed_delay (Suc (Suc (Suc (Suc 0)))) = 78125 / 8"
  "1000 * claimed_delay (Suc (Suc (Suc (Suc (Suc 0))))) = 390625 / 32"
  "1000 * claimed_delay (Suc (Suc (Suc (Suc (Suc (Suc 0)))))) = 1953125 / 128"
  "1000 * claimed_delay (Suc (Suc (Suc (Suc (Suc (Suc (Suc 0))))))) = 9765625 / 512"
  "1000 * claimed_delay (Suc (Suc (Suc (Suc (Suc (Suc (Suc (Suc 0)))))))) = 48828125 / 2048"
  "1000 * claimed_delay (Suc (Suc (Suc (Suc (Suc (Suc (Suc (Suc (Suc 0))))))))) = 244140625 / 8192"
  by (simp_all add: claimed_delay_def power_divide)

lemma claimed_capped: "claimed_delay (Suc (9 + m)) = 30"
proof -
  have "(5 / 4 :: rat) ^ 9 \<le> (5 / 4) ^ (9 + m)"
    by (rule power_increasing) simp_all
  moreover have "(6 :: rat) \<le> (5 / 4) ^ 9" by (simp add: power_divide)
  ultimately have "(6 :: rat) \<le> (5 / 4) ^ (9 + m)" by (rule order_trans [rotated])
  then have "(30 :: rat) \<le> 5 * (5 / 4) ^ (9 + m)" by linarith
  then show ?thesis unfolding claimed_delay_def by (simp only: diff_Suc_1 min_absorb2)
qed

lemma delay_ms_small:
  "int (delay_ms (Suc 0)) = \<lfloor>1000 * claimed_delay (Suc 0)\<rfloor>"
  "int (delay_ms (Suc (Suc 0))) = \<lfloor>1000 * claimed_delay (Suc (Suc 0))\<rfloor>"
  "int (delay_ms (Suc (Suc (Suc 0)))) = \<lfloor>1000 * claimed_delay (Suc (Suc (Suc 0)))\<rfloor>"
  "int (delay_ms (Suc (Suc (Suc (Suc 0))))) = \<lfloor>1000 * claimed_delay (Suc (Suc (Suc (Suc 0))))\<rfloor>"
  "int (delay_ms (Suc (Suc (Suc (Suc (Suc 0)))))) = \<lfloor>1000 * claimed_delay (Suc (Suc (Suc (Suc (Suc 0)))))\<rfloor>"
  "int (delay_ms (Suc (Suc (Suc (Suc (Suc (Suc 0))))))) = \<lfloor>1000 * claimed_delay (Suc (Suc (Suc (Suc (Suc (Suc 0))))))\<rfloor>"
  "int (delay_ms (Suc (Suc (Suc (Suc (Suc (Suc (Suc 0)))))))) = \<lfloor>1000 * claimed_delay (Suc (Suc (Suc (Suc (Suc (Suc (Suc 0)))))))\<rfloor>"
  "int (delay_ms (Suc (Suc (Suc (Suc (Suc (Suc (Suc (Suc 0))))))))) = \<lfloor>1000 * claimed_delay (Suc (Suc (Suc (Suc (Suc (Suc (Suc (Suc 0))))))))\<rfloor>"
  "int (delay_ms (Suc (Suc (Suc (Suc (Suc (Suc (Suc (Suc (Suc 0)))))))))) = \<lfloor>1000 * claimed_delay (Suc (Suc (Suc (Suc (Suc (Suc (Suc (Suc (Suc 0)))))))))\<rfloor>"
  unfolding claimed_values delay_ms_def diff_Suc_1 backoff_values
  by (simp_all add: floor_eq_iff)

lemma delay_ms_floor:
  assumes "1 \<le> k"
  shows "int (delay_ms k) = \<lfloor>1000 * claimed_delay k\<rfloor>"
proof (cases "k \<le> 9")
  case True
  with assms have "k = Suc 0 \<or> k = Suc (Suc 0) \<or> k = Suc (Suc (Suc 0)) \<or> k = Suc (Suc (Suc (Suc 0)))
    \<or> k = Suc (Suc (Suc (Suc (Suc 0)))) \<or> k = Suc (Suc (Suc (Suc (Suc (Suc 0)))))
    \<or> k = Suc (Suc (Suc (Suc (Suc (Suc (Suc 0)))))) \<or> k = Suc (Suc (Suc (Suc (Suc (Suc (Suc (Suc 0)))))))
    \<or> k = Suc (Suc (Suc (Suc (Suc (Suc (Suc (Suc (Suc 0))))))))"
    by arith
  with delay_ms_small show ?thesis by blast
next
  case False
  then have "k = Suc (9 + (k - 10))" by arith
  then obtain m where k: "k = Suc (9 + m)" ..
  have 9: "(9 :: nat) = Suc (Suc (Suc (Suc (Suc (Suc (Suc (Suc (Suc 0))))))))" by simp
  have "delay_ms k = 30000" unfolding delay_ms_def k diff_Suc_1 9 backoff_capped by simp
  moreover have "\<lfloor>1000 * claimed_delay k\<rfloor> = 30000" unfolding k claimed_capped by simp
  ultimately show ?thesis by simp
qed


text \<open>
  A completion that is not a transient failure, the queue not being empty and a client error
  carrying its error text: the queue is popped, the back-off is back at its floor, the stored
  id is cleared, and when an event is left in the queue it is transmitted under a fresh id.
\<close>

lemma completion_resets:
  assumes nt: "\<not> transient_failure reply" and pe: "pending_events r1 \<noteq> []"
    and et: "error_string reply \<noteq> None \<or> \<not> (400 \<le> code reply \<and> code reply < 500 \<and> code reply \<noteq> 429)"
  shows "\<exists>r2 a. transmit_finished txn_id reply r1 = Inr (r2, a)
           \<and> pending_events r2 = tl (pending_events r1)
           \<and> retry_backoff r2 = MINIMUM_BACKOFF
           \<and> last_transmit_transaction r2
               = (if pending_events r2 = [] then [] else txn_id (next_transaction (session r1)))"
proof -
  from pe obtain ev q where q: "pending_events r1 = ev # q" by (cases "pending_events r1") auto
  let ?r = "r1\<lparr>transmitting := False, pending_events := q,
                last_transmit_transaction := [], retry_backoff := MINIMUM_BACKOFF\<rparr>"
  have te: "q \<noteq> [] \<Longrightarrow> \<exists>r2. transmit_event txn_id ?r
                = Inr (r2, [Put (room_id r1) (fst (hd q)) (txn_id (next_transaction (session r1)))
                              (snd (hd q))])
              \<and> pending_events r2 = q \<and> retry_backoff r2 = MINIMUM_BACKOFF
              \<and> last_transmit_transaction r2 = txn_id (next_transaction (session r1))"
    by (cases q) (simp_all add: transmit_event_def get_transaction_id_def)
  show ?thesis
  proof (cases "400 \<le> code reply \<and> code reply < 500 \<and> code reply \<noteq> 429")
    case True
    with et obtain msg where m: "error_string reply = Some msg" by auto
    show ?thesis
    proof (cases "q = []")
      case True
      with \<open>400 \<le> code reply \<and> code reply < 500 \<and> code reply \<noteq> 429\<close> m q show ?thesis
        by (simp add: transmit_finished_def Let_def)
    next
      case False
      from te [OF False] obtain r2 where
        "transmit_event txn_id ?r
           = Inr (r2, [Put (room_id r1) (fst (hd q)) (txn_id (next_transaction (session r1)))
                         (snd (hd q))])"
        "pending_events r2 = q" "retry_backoff r2 = MINIMUM_BACKOFF"
        "last_transmit_transaction r2 = txn_id (next_transaction (session r1))"
        by blast
      with False \<open>400 \<le> code reply \<and> code reply < 500 \<and> code reply \<noteq> 429\<close> m q show ?thesis
        by (simp add: transmit_finished_def Let_def)
    qed
  next
    case c: False
    with nt have n: "error_string reply = None" by (simp add: transient_failure_def)
    show ?thesis
    proof (cases "q = []")
      case True
      with c n q show ?thesis
        unfolding transmit_finished_def Let_def if_not_P [OF c] by simp
    next
      case False
      from te [OF False] obtain r2 where
        "transmit_event txn_id ?r
           = Inr (r2, [Put (room_id r1) (fst (hd q)) (txn_id (next_transaction (session r1)))
                         (snd (hd q))])"
        "pending_events r2 = q" "retry_backoff r2 = MINIMUM_BACKOFF"
        "last_transmit_transaction r2 = txn_id (next_transaction (session r1))"
        by blast
      with False c n q show ?thesis
        unfolding transmit_finished_def Let_def if_not_P [OF c] by simp
    qed
  qed
qed

text \<open>
  C8, amended. In every run of the sender that starts with a non-empty queue and the back-off
  at its floor, and in which every completion is a transient failure (a reply with an error
  that is not a client error, or a 429), with any calls of \<open>send\<close> and any expiries of the
  timer in between, the code does not fail, and the \<open>k\<close>-th failure arms the retry timer with
  \<open>min (5s * 1.25 ^ (k - 1)) 30s\<close> rounded down to whole milliseconds: 5000, 6250, 7812,
  9765, ..., 30000. A completion that is not a transient failure (the queue not being empty, a
  client error carrying its error text) removes the head of the queue, resets the back-off to
  the five-second floor and clears the stored transaction id; when further events are queued,
  the next one is transmitted at once, under a fresh id.
\<close>

theorem backoff_schedule:
  assumes "list_all transient_input inps" and "pending_events r \<noteq> []"
    and "retry_backoff r = MINIMUM_BACKOFF"
  shows "(sender_run txn_id inps r = Inl NotEnabled
          \<or> (\<exists>r' T. sender_run txn_id inps r = Inr (r', T)
                \<and> map int (timer_starts T)
                    = map (\<lambda>k. \<lfloor>1000 * claimed_delay k\<rfloor>) [1..<Suc (failure_count inps)]))
       \<and> (\<forall>reply' r1.
             \<not> transient_failure reply' \<and> pending_events r1 \<noteq> []
             \<and> (error_string reply' \<noteq> None
                  \<or> \<not> (400 \<le> code reply' \<and> code reply' < 500 \<and> code reply' \<noteq> 429)) \<longrightarrow>
             (\<exists>r2 a. transmit_finished txn_id reply' r1 = Inr (r2, a)
                \<and> pending_events r2 = tl (pending_events r1)
                \<and> retry_backoff r2 = MINIMUM_BACKOFF
                \<and> last_transmit_transaction r2
                    = (if pending_events r2 = [] then []
                       else txn_id (next_transaction (session r1)))))"
proof -
  let ?n = "failure_count inps"
  have sched: "map int (map (\<lambda>j. backoff_from MINIMUM_BACKOFF j div 1000000) [0..<?n])
                 = map (\<lambda>k. \<lfloor>1000 * claimed_delay k\<rfloor>) [1..<Suc ?n]"
  proof -
    have "map int (map (\<lambda>j. backoff_from MINIMUM_BACKOFF j div 1000000) [0..<?n])
            = map (\<lambda>j. int (delay_ms (Suc j))) [0..<?n]"
      by (simp add: delay_ms_def)
    also have "\<dots> = map (\<lambda>j. \<lfloor>1000 * claimed_delay (Suc j)\<rfloor>) [0..<?n]"
      by (simp add: delay_ms_floor)
    also have "\<dots> = map (\<lambda>k. \<lfloor>1000 * claimed_delay k\<rfloor>) (map Suc [0..<?n])"
      by (simp add: comp_def)
    also have "map Suc [0..<?n] = [1..<Suc ?n]" by (simp add: map_Suc_upt)
    finally show ?thesis .
  qed
  from transient_run [OF assms(1,2), of txn_id] assms(3) sched
  have "sender_run txn_id inps r = Inl NotEnabled
          \<or> (\<exists>r' T. sender_run txn_id inps r = Inr (r', T)
                \<and> map int (timer_starts T)
                    = map (\<lambda>k. \<lfloor>1000 * claimed_delay k\<rfloor>) [1..<Suc (failure_count inps)])"
    by (elim disjE exE conjE) (simp, metis)
  with completion_resets show ?thesis by blast
qed

definition too_many :: Reply where
  "too_many = \<lparr>code = 429, error_string = Some ''Too Many Requests''\<rparr>"

definition retry_delays :: "(nat \<Rightarrow> string) \<Rightarrow> input list \<Rightarrow> Room \<Rightarrow> nat list" where
  "retry_delays txn_id inps r =
     (case sender_run txn_id inps r of Inl err \<Rightarrow> [] | Inr (r', T) \<Rightarrow> timer_starts T)"

definition sending_room :: Room where
  "sending_room =
     (new_Room ''!r:x'' \<lparr>user_id = ''@me:x'', buffer_size = 50, next_transaction = 1\<rparr>)
       \<lparr>pending_events := [(''m.room.message'', hi)], transmitting := True,
        last_transmit_transaction := ''t''\<rparr>"

definition unavailable :: Reply where
  "unavailable = \<lparr>code = 503, error_string = Some ''Service Unavailable''\<rparr>"

text \<open>
  C8, as the claim states it, fails from the third retry on: the timer is armed with 7812
  milliseconds where the claim has 7.8125 seconds, and from the sixth failure on the stored
  back-off itself, a whole number of nanoseconds, is below the claimed value. Nor is the retry
  always delayed by what the timer is armed with: a \<open>send\<close> during the back-off retransmits
  the head of the queue at once, before any expiry of the timer.
\<close>

theorem third_retry_truncated:
  "retry_delays unary_txn (failures (Suc (Suc (Suc 0))) too_many) sending_room = [5000, 6250, 7812]
   \<and> 1000 * claimed_delay 3 = 15625 / 2 \<and> rat_of_nat 7812 \<noteq> 1000 * claimed_delay 3
   \<and> backoff_from MINIMUM_BACKOFF 5 = 15258789062
   \<and> 1000000000 * claimed_delay 6 = 30517578125 / 2
   \<and> map_sum id snd
       (sender_run unary_txn [Finished too_many, Send ''m.room.message'' bye] sending_room)
     = Inr [Start_timer 5000, Put ''!r:x'' ''m.room.message'' ''t'' hi]"
proof -
  have "retry_delays unary_txn (failures (Suc (Suc (Suc 0))) too_many) sending_room = [5000, 6250, 7812]"
    by (simp add: retry_delays_def sender_eval sending_room_def too_many_def)
  moreover have "1000 * claimed_delay 3 = 15625 / 2 \<and> 1000000000 * claimed_delay 6 = 30517578125 / 2"
    by (simp add: claimed_delay_def power_divide)
  moreover have "rat_of_nat 7812 \<noteq> 1000 * claimed_delay 3"
    by (simp add: claimed_delay_def power_divide)
  moreover have "backoff_from MINIMUM_BACKOFF 5 = 15258789062"
  proof -
    have 5: "(5 :: nat) = Suc (Suc (Suc (Suc (Suc 0))))" by simp
    show ?thesis unfolding 5 backoff_values ..
  qed
  moreover have "map_sum id snd
       (sender_run unary_txn [Finished too_many, Send ''m.room.message'' bye] sending_room)
     = Inr [Start_timer 5000, Put ''!r:x'' ''m.room.message'' ''t'' hi]"
    by (simp add: sender_eval sending_room_def too_many_def)
  ultimately show ?thesis by simp
qed

text \<open>
  A run of three failures with different replies, a \<open>send\<close> during the first back-off and an
  expiry of the timer after the second failure.
\<close>

definition mixed_failures :: "input list" where
  "mixed_failures =
     [Finished too_many, Send ''m.room.message'' bye, Finished unavailable, Timeout,
      Finished too_many]"

theorem backoff_schedule_witness:
  "list_all transient_input mixed_failures \<and> pending_events sending_room \<noteq> []
   \<and> retry_backoff sending_room = MINIMUM_BACKOFF
   \<and> (\<exists>r' T. sender_run unary_txn mixed_failures sending_room = Inr (r', T)
          \<and> map int (timer_starts T) = [5000, 6250, 7812])"
proof -
  have h: "list_all transient_input mixed_failures" "pending_events sending_room \<noteq> []"
    "retry_backoff sending_room = MINIMUM_BACKOFF"
    by (simp_all add: mixed_failures_def transient_failure_def too_many_def unavailable_def
        sending_room_def new_Room_def)
  have e: "sender_run unary_txn mixed_failures sending_room \<noteq> Inl NotEnabled"
    by (simp add: sender_eval mixed_failures_def sending_room_def too_many_def unavailable_def)
  have n: "failure_count mixed_failures = Suc (Suc (Suc 0))"
    by (simp add: failure_count_def mixed_failures_def)
  from backoff_schedule [OF h, of unary_txn] e obtain r' T where
    "sender_run unary_txn mixed_failures sending_room = Inr (r', T)"
    and "map int (timer_starts T)
           = map (\<lambda>k. \<lfloor>1000 * claimed_delay k\<rfloor>) [1..<Suc (failure_count mixed_failures)]"
    by blast
  moreover have "map (\<lambda>k. \<lfloor>1000 * claimed_delay k\<rfloor>) [1..<Suc (failure_count mixed_failures)]
                   = [5000, 6250, 7812]"
    unfolding n by (simp add: upt_conv_Cons claimed_delay_def power_divide floor_eq_iff)
  ultimately show ?thesis using h by auto
qed

section \<open>Persisting and reloading a room\<close>

subsection \<open>Numbers that survive the conversions\<close>







subsection \<open>The state and the receipts read back\<close>














subsection \<open>The round trip\<close>

text \<open>
  An event codec to run the round trip with: the fields of an event under the keys of the
  Matrix event envelope.
\<close>

definition plain_event_json :: "Event \<Rightarrow> json" where
  "plain_event_json e =
     JObj ([(''type'', JStr (type e)), (''sender'', JStr (sender e)),
            (''event_id'', JStr (event_id e)), (''state_key'', JStr (state_key e)),
            (''content'', JObj (content e))]
           @ (case prev_content e of
                None \<Rightarrow> []
              | Some p \<Rightarrow> [(''unsigned'', JObj [(''prev_content'', JObj p)])]))"

definition plain_parse_event :: "json \<Rightarrow> Event" where
  "plain_parse_event j =
     \<lparr>type = toString (at_key (toObject j) ''type''),
      sender = toString (at_key (toObject j) ''sender''),
      event_id = toString (at_key (toObject j) ''event_id''),
      state_key = toString (at_key (toObject j) ''state_key''),
      content = toObject (at_key (toObject j) ''content''),
      prev_content = (case map_of (toObject (at_key (toObject j) ''unsigned'')) ''prev_content'' of
                        None \<Rightarrow> None
                      | Some p \<Rightarrow> Some (toObject p))\<rparr>"


text \<open>
  The room after two sync deltas: the first brought the name Lobby, the second a message.
  The buffer holds two batches; the snapshot \<open>initial_state\<close> predates both.
\<close>

definition two_batch_room :: Room where
  "two_batch_room =
     (new_Room ''!r:x'' me)
       \<lparr>state := lobby,
        buffer := [\<lparr>prev_batch = ''p0'', events = [name_event ''Lobby'']\<rparr>,
                   \<lparr>prev_batch = ''p1'', events = [message_event ''E2'' ''@b:x'']\<rparr>]\<rparr>"

definition timeline_delta :: "string \<Rightarrow> Event list \<Rightarrow> JoinedRoom" where
  "timeline_delta pb evts =
     \<lparr>unread_highlight_count = 0, unread_notification_count = 0, timeline_limited = False,
      timeline_prev_batch = pb, timeline_events = evts, ephemeral_events = []\<rparr>"

text \<open>
  The room after one sync delta in which Sam joined, and the member store as that dispatch
  leaves it (\<^verbatim>\<open>dbi_put\<close> of the member under its id): the store follows the current state,
  the snapshot \<open>initial_state\<close> predates the batch and has no member.
\<close>

definition joined_room :: Room where
  "joined_room =
     (new_Room ''!r:x'' me)
       \<lparr>state := sam_room,
        buffer := [\<lparr>prev_batch = ''p0'', events = [member_event ''@a:x'' ''join'' ''Sam'']\<rparr>]\<rparr>"

definition sam_store :: "(string \<times> QJsonObject) list" where
  "sam_store = [(''@a:x'', [(''displayname'', JStr ''Sam''), (''membership'', JStr ''join'')])]"

text \<open>
  Two rooms without buffered events: one whose highlight count and own receipt's timestamp
  are \<open>2^53 + 1\<close>, which no double holds; one whose own receipt's timestamp is \<open>2^63\<close>,
  which a double holds but a \<^verbatim>\<open>qint64\<close> does not, as a sync delta with a receipt event
  carrying that number leaves it.
\<close>

definition late_receipt_room :: Room where
  "late_receipt_room =
     (new_Room ''!r:x'' me)
       \<lparr>buffer := [\<lparr>prev_batch = ''p0'', events = []\<rparr>],
        receipts_by_user := [(''@me:x'', \<lparr>event = ''E2'', ts = 9223372036854775808\<rparr>)],
        receipts_by_event := [''E2'' \<mapsto> [''@me:x'']]\<rparr>"


lemmas room_eval = Room_of_json_def Room_to_json_def RoomState_of_json_def RoomState_to_json_def
  load_receipts.simps update_receipt_def new_Room_def plain_event_json_def plain_parse_event_def
  name_event_def message_event_def member_event_def me_def lobby_def sam_room_def sam_store_def
  Member_of_json_def to_uint64_def

lemma two_batch_room_reached:
  "\<exists>a1 a2 r1. Room_dispatch (\<lambda>n. n) (timeline_delta ''p0'' [name_event ''Lobby'']) (new_Room ''!r:x'' me)
              = Inr (True, r1, a1)
     \<and> Room_dispatch (\<lambda>n. n) (timeline_delta ''p1'' [message_event ''E2'' ''@b:x'']) r1
              = Inr (False, two_batch_room, a2)"
  by (simp add: Room_dispatch_def dispatch_counts_def dispatch_batch_def timeline_delta_def
      two_batch_room_def room_eval state_eval)

lemma joined_room_reached:
  "\<exists>a1. Room_dispatch (\<lambda>n. n) (timeline_delta ''p0'' [member_event ''@a:x'' ''join'' ''Sam''])
           (new_Room ''!r:x'' me)
         = Inr (True, joined_room, a1)"
  by (simp add: Room_dispatch_def dispatch_counts_def dispatch_batch_def timeline_delta_def
      joined_room_def room_eval state_eval)

lemma late_receipt_room_reached:
  "\<exists>a1. Room_dispatch (\<lambda>n. n)
           ((timeline_delta ''p0'' [])
              \<lparr>ephemeral_events := [receipt_event ''E2'' ''@me:x'' 9223372036854775808]\<rparr>)
           (new_Room ''!r:x'' me)
         = Inr (False, late_receipt_room, a1)"
  by (simp add: Room_dispatch_def dispatch_counts_def dispatch_batch_def timeline_delta_def
      late_receipt_room_def receipt_event_def receipt_updates_def room_eval state_eval)







end
